theory Spec2Isabelle
  imports Complex_Main "HOL-Library.Log_Nat"
begin

section \<open>JavaScript numbers\<close>

text \<open>
  A JavaScript number is an IEEE 754 binary64 value: \<open>NaN\<close>, one of the two infinities, or
  a finite value, kept here as the rational it denotes.  Every arithmetic operation
  computes the exact rational result and rounds it to the nearest binary64 value (ties to
  even), overflowing to an infinity, as IEEE 754 prescribes.  The negative zero is
  identified with zero: the converter only compares, rounds and prints its numbers, and
  \<open>Number.isFinite\<close>, \<open><\<close>, \<open>===\<close>, truthiness, \<open>Math.abs\<close> and \<open>toFixed\<close> treat
  both zeros alike.  Division alone tells the zeros apart, in the sign of an infinite
  quotient; \<open>jsdiv\<close> takes a zero divisor as the positive zero.  No division of the
  converter has a zero divisor: the scale selector offers the numbers from 1 to 72, the
  fraction reducer divides by a truthy greatest common divisor, the percentage is
  guarded, and every other divisor is a constant.
\<close>

datatype jsnum = NaN | PInf | NInf | Fin rat

definition pow2 :: "int \<Rightarrow> rat" where
  "pow2 k = (if 0 \<le> k then 2 ^ nat k else 1 / 2 ^ nat (- k))"

definition ilog2 :: "rat \<Rightarrow> int" where
  \<comment> \<open>\<open>\<lfloor>log\<^sub>2 q\<rfloor>\<close> for a positive rational \<open>q\<close>\<close>
  "ilog2 q = (let k = bitlen (fst (quotient_of q)) - bitlen (snd (quotient_of q))
              in if pow2 k \<le> q then k else k - 1)"

definition rne :: "rat \<Rightarrow> int" where
  \<comment> \<open>nearest integer, a tie going to the even one\<close>
  "rne q = (let f = \<lfloor>q\<rfloor>; d = q - of_int f
            in if d < 1 / 2 then f else if 1 / 2 < d then f + 1
               else if even f then f else f + 1)"

definition fl_exp :: "rat \<Rightarrow> int" where
  \<comment> \<open>exponent of the last place of the binary64 values around \<open>q\<close>: 53 significant
      bits, and never below the subnormal spacing \<open>2\<^sup>-\<^sup>1\<^sup>0\<^sup>7\<^sup>4\<close>\<close>
  "fl_exp q = max (ilog2 \<bar>q\<bar> - 52) (- 1074)"

definition round53 :: "rat \<Rightarrow> rat" where
  "round53 q = (if q = 0 then 0 else of_int (rne (q / pow2 (fl_exp q))) * pow2 (fl_exp q))"

definition fl :: "rat \<Rightarrow> jsnum" where
  \<comment> \<open>the binary64 value of an exact result\<close>
  "fl q = (let r = round53 q
           in if 2 ^ 1024 \<le> r then PInf else if r \<le> - (2 ^ 1024) then NInf else Fin r)"

definition is_double :: "jsnum \<Rightarrow> bool" where
  \<comment> \<open>the finite values must be representable\<close>
  "is_double a = (case a of Fin q \<Rightarrow> fl q = Fin q | _ \<Rightarrow> True)"

fun isFinite :: "jsnum \<Rightarrow> bool" where
  "isFinite (Fin q) = True"
| "isFinite _ = False"

fun truthy :: "jsnum \<Rightarrow> bool" where
  "truthy NaN = False"
| "truthy (Fin q) = (q \<noteq> 0)"
| "truthy _ = True"

fun neg :: "jsnum \<Rightarrow> bool" where
  "neg NInf = True"
| "neg (Fin q) = (q < 0)"
| "neg _ = False"

definition jsmul :: "jsnum \<Rightarrow> jsnum \<Rightarrow> jsnum" where
  "jsmul a b = (case (a, b) of
      (Fin x, Fin y) \<Rightarrow> fl (x * y)
    | _ \<Rightarrow> if a = NaN \<or> b = NaN \<or> a = Fin 0 \<or> b = Fin 0 then NaN
           else if neg a \<noteq> neg b then NInf else PInf)"

definition jsdiv :: "jsnum \<Rightarrow> jsnum \<Rightarrow> jsnum" where
  "jsdiv a b = (case (a, b) of
      (Fin x, Fin y) \<Rightarrow>
         if y = 0 then (if x = 0 then NaN else if x < 0 then NInf else PInf)
         else fl (x / y)
    | (Fin x, _) \<Rightarrow> if b = NaN then NaN else Fin 0
    | (_, Fin y) \<Rightarrow> if a = NaN then NaN else if neg a \<noteq> (y < 0) then NInf else PInf
    | _ \<Rightarrow> NaN)"

definition jsadd :: "jsnum \<Rightarrow> jsnum \<Rightarrow> jsnum" where
  "jsadd a b = (case (a, b) of
      (Fin x, Fin y) \<Rightarrow> fl (x + y)
    | (Fin x, _) \<Rightarrow> b
    | (_, Fin y) \<Rightarrow> a
    | _ \<Rightarrow> if a = b then a else NaN)"

definition jsneg :: "jsnum \<Rightarrow> jsnum" where
  "jsneg a = (case a of NaN \<Rightarrow> NaN | PInf \<Rightarrow> NInf | NInf \<Rightarrow> PInf | Fin x \<Rightarrow> Fin (- x))"

definition jssub :: "jsnum \<Rightarrow> jsnum \<Rightarrow> jsnum" where
  "jssub a b = jsadd a (jsneg b)"

definition trunc :: "rat \<Rightarrow> int" where
  \<comment> \<open>the integer part, rounding towards zero\<close>
  "trunc q = (if 0 \<le> q then \<lfloor>q\<rfloor> else \<lceil>q\<rceil>)"

definition jsmod :: "jsnum \<Rightarrow> jsnum \<Rightarrow> jsnum" where
  \<comment> \<open>\<open>a % b\<close>: the remainder of the truncating division, exact, with the dividend's sign\<close>
  "jsmod a b = (case (a, b) of
      (Fin x, Fin y) \<Rightarrow>
         if y = 0 then NaN
         else Fin (x - y * of_int (trunc (x / y)))
    | (Fin x, _) \<Rightarrow> if b = NaN then NaN else a
    | _ \<Rightarrow> NaN)"

definition jslt :: "jsnum \<Rightarrow> jsnum \<Rightarrow> bool" where
  "jslt a b = (case (a, b) of
      (Fin x, Fin y) \<Rightarrow> x < y
    | (NInf, Fin y) \<Rightarrow> True
    | (NInf, PInf) \<Rightarrow> True
    | (Fin x, PInf) \<Rightarrow> True
    | _ \<Rightarrow> False)"

definition jseq :: "jsnum \<Rightarrow> jsnum \<Rightarrow> bool" where
  \<comment> \<open>\<open>===\<close> on numbers: \<open>NaN\<close> equals nothing\<close>
  "jseq a b = (a \<noteq> NaN \<and> a = b)"

definition Math_max :: "jsnum \<Rightarrow> jsnum \<Rightarrow> jsnum" where
  "Math_max a b = (if a = NaN \<or> b = NaN then NaN else if jslt a b then b else a)"

definition Math_min :: "jsnum \<Rightarrow> jsnum \<Rightarrow> jsnum" where
  "Math_min a b = (if a = NaN \<or> b = NaN then NaN else if jslt b a then b else a)"

definition Math_abs :: "jsnum \<Rightarrow> jsnum" where
  "Math_abs a = (case a of NaN \<Rightarrow> NaN | Fin x \<Rightarrow> Fin \<bar>x\<bar> | _ \<Rightarrow> PInf)"

definition Math_floor :: "jsnum \<Rightarrow> jsnum" where
  "Math_floor a = (case a of Fin x \<Rightarrow> Fin (of_int \<lfloor>x\<rfloor>) | _ \<Rightarrow> a)"

definition Math_round :: "jsnum \<Rightarrow> jsnum" where
  \<comment> \<open>nearest integer, a tie going up\<close>
  "Math_round a = (case a of Fin x \<Rightarrow> Fin (of_int \<lfloor>x + 1 / 2\<rfloor>) | _ \<Rightarrow> a)"


section \<open>Strings that denote numbers\<close>

text \<open>
  \<open>toFixed\<close> returns a string.  The model keeps what the string denotes: a decimal
  numeral with a sign, the digits of an integer \<open>n\<close> and a point before its last \<open>f\<close>
  digits, or, where \<open>toFixed\<close> falls back on \<open>Number::toString\<close> (a non-finite value, or
  one of magnitude \<open>10\<^sup>2\<^sup>1\<close> and more), that number's own string.  \<open>render\<close> gives the
  characters of the former; the exponent form of the latter is not spelled out.
\<close>

datatype js_error = RangeError

datatype numstr = Decimal bool nat nat | NumberToString jsnum

definition ToIntegerOrInfinity :: "jsnum \<Rightarrow> jsnum" where
  "ToIntegerOrInfinity a = (case a of
      NaN \<Rightarrow> Fin 0
    | Fin x \<Rightarrow> Fin (of_int (trunc x))
    | _ \<Rightarrow> a)"

definition toFixed :: "jsnum \<Rightarrow> jsnum \<Rightarrow> js_error + numstr" where
  "toFixed x fractionDigits = (case ToIntegerOrInfinity fractionDigits of
      Fin f \<Rightarrow>
        if f < 0 \<or> 100 < f then Inl RangeError
        else (case x of
            Fin q \<Rightarrow>
              if 10 ^ 21 \<le> \<bar>q\<bar> then Inr (NumberToString x)
              else Inr (Decimal (q < 0) (nat \<lfloor>\<bar>q\<bar> * 10 ^ nat \<lfloor>f\<rfloor> + 1 / 2\<rfloor>) (nat \<lfloor>f\<rfloor>))
          | _ \<Rightarrow> Inr (NumberToString x))
    | _ \<Rightarrow> Inl RangeError)"

definition Number_numstr :: "numstr \<Rightarrow> jsnum" where
  \<comment> \<open>\<open>Number(s)\<close> for a string that \<open>toFixed\<close> made\<close>
  "Number_numstr s = (case s of
      Decimal sg n f \<Rightarrow> fl ((if sg then - 1 else 1) * of_nat n / 10 ^ f)
    | NumberToString x \<Rightarrow> x)"

definition digit_char :: "nat \<Rightarrow> char" where
  "digit_char d = ''0123456789'' ! d"

fun digits :: "nat \<Rightarrow> string" where
  "digits n = (if n < 10 then [digit_char n] else digits (n div 10) @ [digit_char (n mod 10)])"

definition render :: "numstr \<Rightarrow> string option" where
  "render s = (case s of
      Decimal sg n f \<Rightarrow>
        (let m = digits n;
             m' = (if f \<noteq> 0 \<and> length m \<le> f then replicate (f + 1 - length m) CHR ''0'' @ m
                   else m);
             k = length m'
         in Some ((if sg then ''-'' else []) @
                  (if f = 0 then m' else take (k - f) m' @ ''.'' @ drop (k - f) m')))
    | NumberToString NaN \<Rightarrow> Some ''NaN''
    | NumberToString PInf \<Rightarrow> Some ''Infinity''
    | NumberToString NInf \<Rightarrow> Some ''-Infinity''
    | NumberToString (Fin q) \<Rightarrow> None)"


subsection \<open>Reading a number from the text field\<close>

text \<open>
  \<open>Number(s)\<close> on a string follows the grammar of ECMAScript's \<open>StringToNumber\<close>: white
  space around the literal is dropped, the empty string is 0, a literal is \<open>Infinity\<close> or
  a decimal literal with an optional sign, fraction and exponent, or an unsigned
  hexadecimal, octal or binary integer; anything else is \<open>NaN\<close>.  The characters are the
  8-bit ones.
\<close>

definition StrWhiteSpaceChar :: "char \<Rightarrow> bool" where
  "StrWhiteSpaceChar c = ((of_char c :: nat) \<in> {9, 10, 11, 12, 13, 32, 160})"

definition trim :: "string \<Rightarrow> string" where
  "trim s = rev (dropWhile StrWhiteSpaceChar (rev (dropWhile StrWhiteSpaceChar s)))"

definition decimal_digit :: "char \<Rightarrow> nat option" where
  "decimal_digit c = (let n = of_char c :: nat
                      in if 48 \<le> n \<and> n \<le> 57 then Some (n - 48) else None)"

definition hex_digit :: "char \<Rightarrow> nat option" where
  "hex_digit c = (let n = of_char c :: nat
                  in if 48 \<le> n \<and> n \<le> 57 then Some (n - 48)
                     else if 65 \<le> n \<and> n \<le> 70 then Some (n - 55)
                     else if 97 \<le> n \<and> n \<le> 102 then Some (n - 87) else None)"

definition octal_digit :: "char \<Rightarrow> nat option" where
  "octal_digit c = (let n = of_char c :: nat
                    in if 48 \<le> n \<and> n \<le> 55 then Some (n - 48) else None)"

definition binary_digit :: "char \<Rightarrow> nat option" where
  "binary_digit c = (let n = of_char c :: nat
                     in if 48 \<le> n \<and> n \<le> 49 then Some (n - 48) else None)"

fun radix_value :: "(char \<Rightarrow> nat option) \<Rightarrow> nat \<Rightarrow> nat \<Rightarrow> string \<Rightarrow> nat option" where
  "radix_value dv b acc [] = Some acc"
| "radix_value dv b acc (c # cs) =
     (case dv c of None \<Rightarrow> None | Some d \<Rightarrow> radix_value dv b (acc * b + d) cs)"

definition DecimalDigits :: "string \<Rightarrow> nat option" where
  "DecimalDigits s = (if s = [] then None else radix_value decimal_digit 10 0 s)"

definition SignedInteger :: "string \<Rightarrow> int option" where
  "SignedInteger s = (case s of
      [] \<Rightarrow> None
    | c # cs \<Rightarrow>
        if c = CHR ''+'' then map_option int (DecimalDigits cs)
        else if c = CHR ''-'' then map_option (\<lambda>n. - int n) (DecimalDigits cs)
        else map_option int (DecimalDigits s))"

definition pow10 :: "int \<Rightarrow> rat" where
  "pow10 k = (if 0 \<le> k then 10 ^ nat k else 1 / 10 ^ nat (- k))"

definition StrUnsignedDecimalLiteral :: "string \<Rightarrow> rat option" where
  \<comment> \<open>the exact value of digits, an optional point and an optional exponent\<close>
  "StrUnsignedDecimalLiteral s =
     (let mant = takeWhile (\<lambda>c. c \<noteq> CHR ''e'' \<and> c \<noteq> CHR ''E'') s;
          rest = dropWhile (\<lambda>c. c \<noteq> CHR ''e'' \<and> c \<noteq> CHR ''E'') s;
          ip = takeWhile (\<lambda>c. c \<noteq> CHR ''.'') mant;
          rest2 = dropWhile (\<lambda>c. c \<noteq> CHR ''.'') mant;
          fp = (if rest2 = [] then [] else tl rest2)
      in case (radix_value decimal_digit 10 0 ip, radix_value decimal_digit 10 0 fp,
               if rest = [] then Some 0 else SignedInteger (tl rest)) of
           (Some i, Some f, Some e) \<Rightarrow>
             if ip = [] \<and> fp = [] then None
             else Some ((of_nat i + of_nat f / 10 ^ length fp) * pow10 e)
         | _ \<Rightarrow> None)"

datatype numlit = LitInfinity bool | LitValue rat

definition StrDecimalLiteral :: "string \<Rightarrow> numlit option" where
  "StrDecimalLiteral s =
     (let sg = (s \<noteq> [] \<and> hd s = CHR ''-'');
          body = (if s \<noteq> [] \<and> (hd s = CHR ''+'' \<or> hd s = CHR ''-'') then tl s else s)
      in if body = ''Infinity'' then Some (LitInfinity sg)
         else map_option (\<lambda>q. LitValue (if sg then - q else q)) (StrUnsignedDecimalLiteral body))"

definition NonDecimalIntegerLiteral :: "string \<Rightarrow> nat option option" where
  \<comment> \<open>\<open>None\<close>: no radix prefix; \<open>Some None\<close>: a prefix and no valid digits after it\<close>
  "NonDecimalIntegerLiteral s =
     (if take 2 s = ''0x'' \<or> take 2 s = ''0X'' then
        Some (if drop 2 s = [] then None else radix_value hex_digit 16 0 (drop 2 s))
      else if take 2 s = ''0o'' \<or> take 2 s = ''0O'' then
        Some (if drop 2 s = [] then None else radix_value octal_digit 8 0 (drop 2 s))
      else if take 2 s = ''0b'' \<or> take 2 s = ''0B'' then
        Some (if drop 2 s = [] then None else radix_value binary_digit 2 0 (drop 2 s))
      else None)"

definition StringNumericLiteral :: "string \<Rightarrow> numlit option" where
  \<comment> \<open>the exact value a string denotes, \<open>None\<close> where it is no numeric literal\<close>
  "StringNumericLiteral s =
     (let t = trim s
      in if t = [] then Some (LitValue 0)
         else (case NonDecimalIntegerLiteral t of
             Some None \<Rightarrow> None
           | Some (Some n) \<Rightarrow> Some (LitValue (of_nat n))
           | None \<Rightarrow> StrDecimalLiteral t))"

definition Number :: "string \<Rightarrow> jsnum" where
  "Number s = (case StringNumericLiteral s of
      None \<Rightarrow> NaN
    | Some (LitInfinity sg) \<Rightarrow> (if sg then NInf else PInf)
    | Some (LitValue q) \<Rightarrow> fl q)"


section \<open>The helpers of the source\<close>

text \<open>\<open>const clamp = (v, min, max) => Math.min(Math.max(v, min), max)\<close>\<close>

definition clamp :: "jsnum \<Rightarrow> jsnum \<Rightarrow> jsnum \<Rightarrow> jsnum" where
  "clamp v mn mx = Math_min (Math_max v mn) mx"

text \<open>\<open>const round = (v, dp = 3) => (Number.isFinite(v) ? Number(v.toFixed(dp)) : 0)\<close>\<close>

definition round_js :: "jsnum \<Rightarrow> jsnum \<Rightarrow> js_error + jsnum" where
  "round_js v dp = (if isFinite v then map_sum id Number_numstr (toFixed v dp) else Inr (Fin 0))"


section \<open>The greatest common divisor of the fraction reducer\<close>

text \<open>
  \<open>const g = (a, b) => (b ? g(b, a % b) : a)\<close> is Euclid's algorithm on JavaScript
  numbers.  It ends on every pair of arguments: \<open>%\<close> is exact, so on finite values the
  second argument shrinks along a common grid, and a non-finite argument ends the
  recursion within three calls.
\<close>

definition den :: "rat \<Rightarrow> int" where "den x = snd (quotient_of x)"

definition g_measure :: "jsnum \<Rightarrow> jsnum \<Rightarrow> nat" where
  "g_measure a b = (case b of
      NaN \<Rightarrow> 0
    | Fin y \<Rightarrow> (if y = 0 then 0 else case a of
          Fin x \<Rightarrow> 1 + nat \<lfloor>\<bar>y\<bar> * of_int (lcm (den x) (den y))\<rfloor>
        | _ \<Rightarrow> 1)
    | _ \<Rightarrow> 2)"

lemma den_pos: "0 < den x"
  unfolding den_def by (cases "quotient_of x") (simp add: quotient_of_denom_pos)

lemma den_mult_int: "x * of_int (den x) \<in> \<int>"
proof -
  obtain p d where pd: "quotient_of x = (p, d)" by (cases "quotient_of x")
  then have x: "x = of_int p / of_int d" and d: "0 < d"
    by (simp_all add: quotient_of_div quotient_of_denom_pos)
  have "den x = d" by (simp add: den_def pd)
  moreover from x d have "x * of_int d = of_int p" by simp
  ultimately show ?thesis by simp
qed

lemma den_dvd:
  assumes "r * of_int L \<in> \<int>" "0 < L"
  shows "den r dvd L"
proof -
  from assms(1) obtain i where i: "r * of_int L = of_int i" by (auto elim: Ints_cases)
  with assms(2) have "r = Fract i L"
    by (simp add: Fract_of_int_quotient field_simps)
  then have "quotient_of r = Rat.normalize (i, L)" by (simp add: quotient_of_Fract)
  with assms(2) have "den r = L div gcd i L"
    by (simp add: den_def Rat.normalize_def Let_def)
  then show ?thesis by (metis dvd_mult_div_cancel dvd_triv_right gcd_dvd2)
qed

lemma lcm_mult_int:
  assumes "(r::rat) * of_int L \<in> \<int>" "L dvd M"
  shows "r * of_int M \<in> \<int>"
proof -
  from assms(2) obtain k where "M = L * k" by (auto simp: dvd_def)
  then have "r * of_int M = (r * of_int L) * of_int k" by simp
  with assms(1) show ?thesis by (metis Ints_mult Ints_of_int)
qed

lemma trunc_rem_less:
  assumes "y \<noteq> 0"
  shows "\<bar>x - y * of_int (trunc (x / y))\<bar> < \<bar>y\<bar>"
proof -
  have "\<bar>x / y - of_int (trunc (x / y))\<bar> < 1"
    unfolding trunc_def by (auto simp: abs_less_iff) linarith+
  then have "\<bar>x / y - of_int (trunc (x / y))\<bar> * \<bar>y\<bar> < 1 * \<bar>y\<bar>"
    using assms by (intro mult_strict_right_mono) auto
  moreover have "\<bar>x / y - of_int (trunc (x / y))\<bar> * \<bar>y\<bar> = \<bar>x - y * of_int (trunc (x / y))\<bar>"
    using assms by (simp add: abs_mult[symmetric] field_simps)
  ultimately show ?thesis by simp
qed

lemma g_step_decreases:
  assumes y: "y \<noteq> 0" and r: "r = x - y * of_int k" and lt: "\<bar>r\<bar> < \<bar>y\<bar>"
  shows "nat \<lfloor>\<bar>r\<bar> * of_int (lcm (den y) (den r))\<rfloor> < nat \<lfloor>\<bar>y\<bar> * of_int (lcm (den x) (den y))\<rfloor>"
proof -
  let ?L = "lcm (den x) (den y)"
  let ?L' = "lcm (den y) (den r)"
  have Lpos: "0 < ?L" using den_pos[of x] den_pos[of y] by (simp add: lcm_pos_int less_imp_neq)
  have xL: "x * of_int ?L \<in> \<int>" using den_mult_int[of x] by (rule lcm_mult_int) simp
  have yL: "y * of_int ?L \<in> \<int>" using den_mult_int[of y] by (rule lcm_mult_int) simp
  have "r * of_int ?L = x * of_int ?L - (y * of_int ?L) * of_int k"
    by (simp add: r algebra_simps)
  with xL yL have "r * of_int ?L \<in> \<int>" by (metis Ints_diff Ints_mult Ints_of_int)
  then have "den r dvd ?L" using Lpos by (rule den_dvd)
  then have "?L' dvd ?L" by simp
  then have L'le: "?L' \<le> ?L" using Lpos by (rule zdvd_imp_le)
  have L'pos: "0 < ?L'" using den_pos[of r] den_pos[of y] by (simp add: lcm_pos_int less_imp_neq)
  have "\<bar>y\<bar> * of_int ?L = \<bar>y * of_int ?L\<bar>" using Lpos by (simp add: abs_mult)
  with yL have "\<bar>y\<bar> * of_int ?L \<in> \<int>" by simp
  then obtain i where i: "\<bar>y\<bar> * of_int ?L = of_int i" by (auto elim: Ints_cases)
  have "\<bar>r\<bar> * of_int ?L' \<le> \<bar>r\<bar> * of_int ?L"
    using L'le by (intro mult_left_mono) auto
  also have "\<dots> < \<bar>y\<bar> * of_int ?L"
    using lt Lpos by (intro mult_strict_right_mono) auto
  finally have lt2: "\<bar>r\<bar> * of_int ?L' < of_int i" by (simp add: i)
  then have "\<lfloor>\<bar>r\<bar> * of_int ?L'\<rfloor> < i" by (simp add: floor_less_iff)
  moreover have "0 \<le> \<lfloor>\<bar>r\<bar> * of_int ?L'\<rfloor>" using L'pos by simp
  ultimately have "nat \<lfloor>\<bar>r\<bar> * of_int ?L'\<rfloor> < nat i" by linarith
  then show ?thesis by (simp add: i)
qed

function g :: "jsnum \<Rightarrow> jsnum \<Rightarrow> jsnum" where
  "g a b = (if truthy b then g b (jsmod a b) else a)"
  by pat_completeness auto
termination
proof (relation "measure (\<lambda>(a, b). g_measure a b)")
  show "wf (measure (\<lambda>(a, b). g_measure a b))" by simp
next
  fix a b assume t: "truthy b"
  show "((b, jsmod a b), (a, b)) \<in> measure (\<lambda>(a, b). g_measure a b)"
  proof (cases b)
    case (Fin y)
    with t have y: "y \<noteq> 0" by simp
    show ?thesis
    proof (cases a)
      case (Fin x)
      define r where "r = x - y * of_int (trunc (x / y))"
      have "\<bar>r\<bar> < \<bar>y\<bar>" unfolding r_def using y by (rule trunc_rem_less)
      with y have "r \<noteq> 0 \<Longrightarrow> nat \<lfloor>\<bar>r\<bar> * of_int (lcm (den y) (den r))\<rfloor> < nat \<lfloor>\<bar>y\<bar> * of_int (lcm (den x) (den y))\<rfloor>"
        using g_step_decreases[of y r x "trunc (x / y)"] by (simp add: r_def)
      then show ?thesis using y \<open>b = Fin y\<close> Fin
        by (simp add: g_measure_def jsmod_def r_def)
    qed (use y Fin in \<open>simp_all add: g_measure_def jsmod_def\<close>)
  next
    case NaN
    with t show ?thesis by simp
  next
    case PInf
    then show ?thesis by (cases a) (simp_all add: g_measure_def jsmod_def)
  next
    case NInf
    then show ?thesis by (cases a) (simp_all add: g_measure_def jsmod_def)
  qed
qed


section \<open>The fraction reducer\<close>

record Fraction =
  sign :: string
  whole :: jsnum
  num :: jsnum
  denom :: jsnum

definition inchesToFraction :: "jsnum \<Rightarrow> jsnum \<Rightarrow> Fraction" where
  "inchesToFraction inches dn =
     (if \<not> isFinite inches then \<lparr>sign = [], whole = Fin 0, num = Fin 0, denom = dn\<rparr>
      else
        let sg = (if jslt inches (Fin 0) then ''-'' else []);
            av = Math_abs inches;
            wh = Math_floor av;
            frac = jssub av wh;
            nm = Math_round (jsmul frac dn)
        in if jseq nm dn then \<lparr>sign = sg, whole = jsadd wh (Fin 1), num = Fin 0, denom = dn\<rparr>
           else
             let gg = (if truthy (g nm dn) then g nm dn else Fin 1)
             in \<lparr>sign = sg, whole = wh, num = jsdiv nm gg, denom = jsdiv dn gg\<rparr>)"


section \<open>The unit tables\<close>

record length_unit =
  key :: string
  label :: string
  toMM :: "jsnum \<Rightarrow> jsnum"
  fromMM :: "jsnum \<Rightarrow> jsnum"

definition lit_25_4 :: jsnum where
  \<comment> \<open>the literal \<open>25.4\<close>\<close>
  "lit_25_4 = fl (254 / 10)"

definition METRIC_UNITS :: "length_unit list" where
  "METRIC_UNITS =
     [\<lparr>key = ''mm'', label = ''Millimetres (mm)'', toMM = (\<lambda>v. v), fromMM = (\<lambda>mm. mm)\<rparr>,
      \<lparr>key = ''cm'', label = ''Centimetres (cm)'',
        toMM = (\<lambda>v. jsmul v (Fin 10)), fromMM = (\<lambda>mm. jsdiv mm (Fin 10))\<rparr>,
      \<lparr>key = ''m'', label = ''Metres (m)'',
        toMM = (\<lambda>v. jsmul v (Fin 1000)), fromMM = (\<lambda>mm. jsdiv mm (Fin 1000))\<rparr>]"

definition IMPERIAL_UNITS :: "length_unit list" where
  "IMPERIAL_UNITS =
     [\<lparr>key = ''in'', label = ''Inches (in)'',
        toMM = (\<lambda>v. jsmul v lit_25_4), fromMM = (\<lambda>mm. jsdiv mm lit_25_4)\<rparr>,
      \<lparr>key = ''ft'', label = ''Feet (ft)'',
        toMM = (\<lambda>v. jsmul (jsmul v (Fin 12)) lit_25_4),
        fromMM = (\<lambda>mm. jsdiv mm (jsmul (Fin 12) lit_25_4))\<rparr>]"

definition ALL_SCALES :: "jsnum list" where
  "ALL_SCALES = map (\<lambda>i. Fin (of_nat i + 1)) [0..<72]"


section \<open>The measurement converter\<close>

text \<open>
  The state of the component, as its \<open>useState\<close> hooks hold it.  The repository has the
  converter twice: \<open>MeasurementConverter\<close> in \<open>src/App.jsx\<close> and \<open>ScaleConverter\<close> in the
  second source file.  They share every helper and differ in how they read the text
  field and the scale.
\<close>

record conv_state =
  system :: string
  metricUnit :: string
  imperialUnit :: string
  inputValue :: string
  scaleN :: jsnum
  inchDenom :: jsnum
  decimals :: jsnum

definition unitList :: "conv_state \<Rightarrow> length_unit list" where
  "unitList st = (if system st = ''metric'' then METRIC_UNITS else IMPERIAL_UNITS)"

definition activeUnitKey :: "conv_state \<Rightarrow> string" where
  "activeUnitKey st = (if system st = ''metric'' then metricUnit st else imperialUnit st)"

definition activeUnit :: "conv_state \<Rightarrow> length_unit" where
  "activeUnit st = (case find (\<lambda>u. key u = activeUnitKey st) (unitList st) of
      Some u \<Rightarrow> u
    | None \<Rightarrow> hd (unitList st))"

definition MeasurementConverter_mmScaled :: "conv_state \<Rightarrow> jsnum" where
  \<comment> \<open>\<open>src/App.jsx\<close>\<close>
  "MeasurementConverter_mmScaled st =
     (let n = Number (inputValue st)
      in if \<not> isFinite n then Fin 0
         else let mmOrig = toMM (activeUnit st) n
              in jsdiv mmOrig (scaleN st))"

definition ScaleConverter_mmScaled :: "conv_state \<Rightarrow> jsnum" where
  \<comment> \<open>the second source file\<close>
  "ScaleConverter_mmScaled st =
     (let val = Number (filter (\<lambda>c. c \<noteq> CHR '','') (inputValue st));
          v = (if isFinite val then val else Fin 0);
          mmOrig = toMM (activeUnit st) v;
          scaled = jsdiv mmOrig (clamp (scaleN st) (Fin 1) (Fin 72))
      in scaled)"

record metric_out =
  out_mm :: jsnum
  out_cm :: jsnum
  out_m :: jsnum

definition metricOut :: "jsnum \<Rightarrow> jsnum \<Rightarrow> js_error + metric_out" where
  "metricOut mmScaled dp =
     (case round_js mmScaled dp of Inl e \<Rightarrow> Inl e | Inr a \<Rightarrow>
      (case round_js (jsdiv mmScaled (Fin 10)) dp of Inl e \<Rightarrow> Inl e | Inr b \<Rightarrow>
       (case round_js (jsdiv mmScaled (Fin 1000)) dp of Inl e \<Rightarrow> Inl e | Inr c \<Rightarrow>
          Inr \<lparr>out_mm = a, out_cm = b, out_m = c\<rparr>)))"

record imperial_out =
  out_in :: jsnum
  out_ft :: jsnum
  out_frac :: Fraction

definition imperialOut :: "jsnum \<Rightarrow> jsnum \<Rightarrow> jsnum \<Rightarrow> js_error + imperial_out" where
  "imperialOut mmScaled dp dn =
     (let inches = jsdiv mmScaled lit_25_4;
          feet = jsdiv inches (Fin 12);
          frac = inchesToFraction inches dn
      in case round_js inches dp of Inl e \<Rightarrow> Inl e | Inr a \<Rightarrow>
         (case round_js feet dp of Inl e \<Rightarrow> Inl e | Inr b \<Rightarrow>
            Inr \<lparr>out_in = a, out_ft = b, out_frac = frac\<rparr>))"

definition setDecimals :: "string \<Rightarrow> jsnum" where
  \<comment> \<open>the decimals field: \<open>setDecimals(clamp(Number(e.target.value), 0, 6))\<close>\<close>
  "setDecimals s = clamp (Number s) (Fin 0) (Fin 6)"


section \<open>The scale-to-scale converter\<close>

datatype jsvalue = NumberValue jsnum | StringValue numstr

definition percent :: "jsnum \<Rightarrow> jsnum \<Rightarrow> js_error + jsvalue" where
  "percent fromScale toScale =
     (if \<not> truthy fromScale \<or> \<not> truthy toScale then Inr (NumberValue (Fin 0))
      else map_sum id StringValue (toFixed (jsmul (jsdiv fromScale toScale) (Fin 100)) (Fin 2)))"


section \<open>Reference definitions for the statements\<close>

definition spec_round :: "nat \<Rightarrow> jsnum \<Rightarrow> jsnum" where
  \<comment> \<open>the specification's words: a non-negative value rounded to \<open>k\<close> decimal places, a
      half going up, and read back as a number; a value that is not finite has no
      decimals to round\<close>
  "spec_round k x = (case x of Fin q \<Rightarrow> fl (of_int \<lfloor>q * 10 ^ k + 1 / 2\<rfloor> / 10 ^ k) | _ \<Rightarrow> x)"

definition valid_precision :: "jsnum \<Rightarrow> bool" where
  \<comment> \<open>\<open>toFixed\<close> accepts the precision: its integer part is between 0 and 100\<close>
  "valid_precision dp = (case ToIntegerOrInfinity dp of Fin f \<Rightarrow> 0 \<le> f \<and> f \<le> 100 | _ \<Rightarrow> False)"

definition initial_state :: conv_state where
  \<comment> \<open>the initial values of the \<open>useState\<close> hooks\<close>
  "initial_state = \<lparr>system = ''metric'', metricUnit = ''mm'', imperialUnit = ''in'',
     inputValue = ''100'', scaleN = Fin 10, inchDenom = Fin 16, decimals = Fin 3\<rparr>"

definition is_digit :: "char \<Rightarrow> bool" where
  \<comment> \<open>one of the characters \<open>0\<close> to \<open>9\<close>\<close>
  "is_digit c = (48 \<le> (of_char c :: nat) \<and> (of_char c :: nat) \<le> 57)"

definition digit_value :: "string \<Rightarrow> nat" where
  \<comment> \<open>the natural number that a string of decimal digits denotes\<close>
  "digit_value xs = foldl (\<lambda>a c. a * 10 + ((of_char c :: nat) - 48)) 0 xs"

definition plain :: "char \<Rightarrow> bool" where
  \<comment> \<open>the characters of a numeral in fixed notation\<close>
  "plain c = (is_digit c \<or> c = CHR ''.'' \<or> c = CHR ''-'')"

definition eta :: rat where
  \<comment> \<open>half the spacing of the subnormal binary64 values\<close>
  "eta = pow2 (- 1075)"


section \<open>Properties of the number model\<close>

subsection \<open>Powers of two and the binary logarithm\<close>

lemma pow2_powi: "pow2 k = power_int 2 k"
  by (simp add: pow2_def power_int_def field_simps)

lemma pow2_pos [simp]: "0 < pow2 k"
  by (simp add: pow2_powi)

lemma pow2_nonneg [simp]: "0 \<le> pow2 k"
  using pow2_pos[of k] by (simp only: less_imp_le)

lemma pow2_add: "pow2 (a + b) = pow2 a * pow2 b"
  by (simp add: pow2_powi power_int_add)

lemma pow2_diff: "pow2 (a - b) = pow2 a / pow2 b"
  by (simp add: pow2_powi power_int_diff)

lemma pow2_le_iff [simp]: "pow2 a \<le> pow2 b \<longleftrightarrow> a \<le> b"
  using power_int_strict_increasing[of b a "2::rat"] power_int_increasing[of a b "2::rat"]
  by (auto simp: pow2_powi not_le[symmetric])

lemma pow2_less_iff [simp]: "pow2 a < pow2 b \<longleftrightarrow> a < b"
  by (simp add: less_le_not_le)

lemma pow2_nat: "0 \<le> k \<Longrightarrow> pow2 k = 2 ^ nat k"
  by (simp add: pow2_def)

lemma pow2_0 [simp]: "pow2 0 = 1"
  by (simp add: pow2_def)

lemma pow2_1 [simp]: "pow2 1 = 2"
  by (simp add: pow2_def)

lemma pow2_Suc: "pow2 (k + 1) = 2 * pow2 k"
  by (simp add: pow2_add)

lemma ilog2_bounds:
  assumes "0 < q"
  shows "pow2 (ilog2 q) \<le> q" and "q < pow2 (ilog2 q + 1)"
proof -
  obtain p d where pd: "quotient_of q = (p, d)" by (cases "quotient_of q")
  then have q: "q = of_int p / of_int d" and d: "0 < d"
    by (simp_all add: quotient_of_div quotient_of_denom_pos)
  with assms have p: "0 < p" by (simp add: zero_less_divide_iff)
  define k where "k = bitlen p - bitlen d"
  have bp: "2 ^ nat (bitlen p - 1) \<le> p" "p < 2 ^ nat (bitlen p)"
    using bitlen_bounds[OF p] by simp_all
  have bd: "2 ^ nat (bitlen d - 1) \<le> d" "d < 2 ^ nat (bitlen d)"
    using bitlen_bounds[OF d] by simp_all
  have bp1: "1 \<le> bitlen p" using p by (simp add: bitlen_alt_def)
  have bd1: "1 \<le> bitlen d" using d by (simp add: bitlen_alt_def)
  have P1: "pow2 (bitlen p - 1) \<le> of_int p"
  proof -
    have "(of_int (2 ^ nat (bitlen p - 1)) :: rat) \<le> of_int p" using bp(1) by (simp only: of_int_le_iff)
    then show ?thesis using bp1 by (simp add: pow2_nat)
  qed
  have P2: "of_int p < pow2 (bitlen p)"
  proof -
    have "(of_int p :: rat) < of_int (2 ^ nat (bitlen p))" using bp(2) by (simp only: of_int_less_iff)
    then show ?thesis using bp1 by (simp add: pow2_nat)
  qed
  have D1: "pow2 (bitlen d - 1) \<le> of_int d"
  proof -
    have "(of_int (2 ^ nat (bitlen d - 1)) :: rat) \<le> of_int d" using bd(1) by (simp only: of_int_le_iff)
    then show ?thesis using bd1 by (simp add: pow2_nat)
  qed
  have D2: "of_int d < pow2 (bitlen d)"
  proof -
    have "(of_int d :: rat) < of_int (2 ^ nat (bitlen d))" using bd(2) by (simp only: of_int_less_iff)
    then show ?thesis using bd1 by (simp add: pow2_nat)
  qed
  have dpos: "(0::rat) < of_int d" using d by simp
  have lo: "pow2 (k - 1) < q"
  proof -
    have "pow2 (k - 1) * of_int d < pow2 (k - 1) * pow2 (bitlen d)"
      using D2 by (intro mult_strict_left_mono) simp_all
    also have "\<dots> = pow2 (bitlen p - 1)" by (simp add: k_def pow2_add[symmetric])
    also have "\<dots> \<le> of_int p" by (rule P1)
    finally show ?thesis using dpos by (simp add: q pos_less_divide_eq)
  qed
  have hi: "q < pow2 (k + 1)"
  proof -
    have "of_int p < pow2 (bitlen p)" by (rule P2)
    also have "\<dots> = pow2 (k + 1) * pow2 (bitlen d - 1)" by (simp add: k_def pow2_add[symmetric])
    also have "\<dots> \<le> pow2 (k + 1) * of_int d"
      using D1 by (intro mult_left_mono) simp_all
    finally show ?thesis using dpos by (simp add: q pos_divide_less_eq)
  qed
  have il: "ilog2 q = (if pow2 k \<le> q then k else k - 1)"
    by (simp add: ilog2_def pd k_def Let_def)
  show "pow2 (ilog2 q) \<le> q" using lo by (auto simp: il)
  show "q < pow2 (ilog2 q + 1)" using hi by (auto simp: il)
qed

lemma ilog2_eqI:
  assumes "pow2 k \<le> q" "q < pow2 (k + 1)"
  shows "ilog2 q = k"
proof -
  have q: "0 < q" using assms(1) pow2_pos[of k] by linarith
  from ilog2_bounds[OF q] assms have "pow2 (ilog2 q) < pow2 (k + 1)" "pow2 k < pow2 (ilog2 q + 1)"
    by linarith+
  then show ?thesis by simp
qed

lemma ilog2_mono:
  assumes "0 < x" "x \<le> y"
  shows "ilog2 x \<le> ilog2 y"
proof -
  have y: "0 < y" using assms by linarith
  from ilog2_bounds[OF assms(1)] ilog2_bounds[OF y] assms(2)
  have "pow2 (ilog2 x) < pow2 (ilog2 y + 1)" by linarith
  then show ?thesis by simp
qed

subsection \<open>Rounding to the nearest integer\<close>

lemma rne_of_int [simp]: "rne (of_int k) = k"
  by (simp add: rne_def)

lemma rne_cases: "rne q = \<lfloor>q\<rfloor> \<or> rne q = \<lfloor>q\<rfloor> + 1"
  by (simp add: rne_def Let_def)

lemma rne_lower: "\<lfloor>q\<rfloor> \<le> rne q"
  using rne_cases[of q] by linarith

lemma rne_upper: "rne q \<le> \<lfloor>q\<rfloor> + 1"
  using rne_cases[of q] by linarith

lemma rne_error: "\<bar>of_int (rne q) - q\<bar> \<le> 1 / 2"
proof -
  have "of_int \<lfloor>q\<rfloor> \<le> q" "q < of_int \<lfloor>q\<rfloor> + 1" by linarith+
  then show ?thesis by (auto simp: rne_def Let_def abs_le_iff)
qed

lemma rne_mono:
  assumes "x \<le> y"
  shows "rne x \<le> rne y"
proof (cases "\<lfloor>x\<rfloor> = \<lfloor>y\<rfloor>")
  case True
  with assms show ?thesis by (auto simp: rne_def Let_def)
next
  case False
  with assms have "\<lfloor>x\<rfloor> < \<lfloor>y\<rfloor>" by (simp add: floor_mono le_neq_trans)
  with rne_upper[of x] rne_lower[of y] show ?thesis by linarith
qed

lemma rne_minus: "rne (- q) = - rne q"
proof (cases "q \<in> \<int>")
  case True
  then obtain k where "q = of_int k" by (auto elim: Ints_cases)
  then have "rne q = k" "rne (- q) = - k" using rne_of_int[of "- k"] by simp_all
  then show ?thesis by simp
next
  case False
  then have "of_int \<lfloor>q\<rfloor> \<noteq> q" by (metis Ints_of_int)
  then have lt: "of_int \<lfloor>q\<rfloor> < q" "q < of_int \<lfloor>q\<rfloor> + 1" by linarith+
  have fl: "\<lfloor>- q\<rfloor> = - \<lfloor>q\<rfloor> - 1"
    by (rule floor_unique) (use lt in simp_all)
  show ?thesis by (auto simp: rne_def Let_def fl)
qed

lemma rne_ge: "of_int k \<le> q \<Longrightarrow> k \<le> rne q"
  using rne_mono[of "of_int k" q] by simp

lemma rne_le: "q \<le> of_int k \<Longrightarrow> rne q \<le> k"
  using rne_mono[of q "of_int k"] by simp

subsection \<open>Rounding to 53 bits\<close>

lemma pow2_neq0 [simp]: "pow2 k \<noteq> 0"
  using pow2_pos[of k] by (simp only: less_imp_neq[THEN not_sym] not_False_eq_True)

lemma fl_exp_minus [simp]: "fl_exp (- q) = fl_exp q"
  by (simp add: fl_exp_def)

lemma round53_minus: "round53 (- q) = - round53 q"
  by (simp add: round53_def rne_minus)

lemma round53_0 [simp]: "round53 0 = 0"
  by (simp add: round53_def)

lemma fl_exp_ge: "- 1074 \<le> fl_exp q"
  by (simp add: fl_exp_def)

lemma of_int_pow2_int:
  assumes "0 \<le> k"
  shows "of_int m * pow2 k = of_int (m * 2 ^ nat k)"
  using assms by (simp add: pow2_nat)

lemma round53_dyadic:
  assumes m: "\<bar>m\<bar> < 2 ^ 53" and e: "- 1074 \<le> e"
  shows "round53 (of_int m * pow2 e) = of_int m * pow2 e"
proof (cases "m = 0")
  case True
  then show ?thesis by simp
next
  case False
  define q where "q = of_int m * pow2 e"
  have q0: "q \<noteq> 0" using False by (simp add: q_def)
  have aq: "\<bar>q\<bar> = of_int \<bar>m\<bar> * pow2 e" by (simp add: q_def abs_mult)
  have "(of_int \<bar>m\<bar> :: rat) < of_int (2 ^ 53)" using m by (simp only: of_int_less_iff)
  then have "of_int \<bar>m\<bar> < pow2 53" by (simp add: pow2_def)
  then have "\<bar>q\<bar> < pow2 53 * pow2 e" unfolding aq by (intro mult_strict_right_mono) simp_all
  then have lt: "\<bar>q\<bar> < pow2 (e + 53)" by (simp add: pow2_add mult.commute)
  have "0 < \<bar>q\<bar>" using q0 by simp
  from ilog2_bounds(1)[OF this] lt have "pow2 (ilog2 \<bar>q\<bar>) < pow2 (e + 53)" by linarith
  then have "ilog2 \<bar>q\<bar> - 52 \<le> e" by simp
  with e have le: "fl_exp q \<le> e" by (simp add: fl_exp_def)
  define k where "k = e - fl_exp q"
  have k: "0 \<le> k" using le by (simp add: k_def)
  have "q / pow2 (fl_exp q) = of_int m * pow2 k"
    by (simp add: q_def k_def pow2_diff)
  also have "\<dots> = of_int (m * 2 ^ nat k)" using k by (rule of_int_pow2_int)
  finally have "rne (q / pow2 (fl_exp q)) = m * 2 ^ nat k" by (simp only: rne_of_int)
  then have "round53 q = of_int (m * 2 ^ nat k) * pow2 (fl_exp q)" using q0 by (simp add: round53_def)
  also have "\<dots> = of_int m * pow2 k * pow2 (fl_exp q)" using k by (simp add: pow2_nat)
  also have "\<dots> = q" by (simp add: q_def k_def pow2_diff)
  finally show ?thesis by (simp add: q_def)
qed

lemma round53_nonneg:
  assumes "0 \<le> x"
  shows "0 \<le> round53 x"
proof (cases "x = 0")
  case False
  with assms have "0 \<le> x / pow2 (fl_exp x)" by simp
  then have "0 \<le> rne (x / pow2 (fl_exp x))" using rne_ge[of 0] by simp
  then show ?thesis using False by (simp add: round53_def)
qed simp

lemma round53_mono_pos:
  assumes x: "0 < x" and xy: "x \<le> y"
  shows "round53 x \<le> round53 y"
proof -
  have y: "0 < y" using x xy by linarith
  define ex where "ex = fl_exp x"
  define ey where "ey = fl_exp y"
  have il: "ilog2 x \<le> ilog2 y" using x xy by (rule ilog2_mono)
  have exy: "ex \<le> ey" using il x y by (simp add: ex_def ey_def fl_exp_def)
  have rx: "round53 x = of_int (rne (x / pow2 ex)) * pow2 ex"
    using x by (simp add: round53_def ex_def)
  have ry: "round53 y = of_int (rne (y / pow2 ey)) * pow2 ey"
    using y by (simp add: round53_def ey_def)
  show ?thesis
  proof (cases "ex = ey")
    case True
    have "x / pow2 ey \<le> y / pow2 ey" using xy by (simp add: divide_right_mono)
    then have "rne (x / pow2 ey) \<le> rne (y / pow2 ey)" by (rule rne_mono)
    then have "(of_int (rne (x / pow2 ey)) :: rat) \<le> of_int (rne (y / pow2 ey))" by simp
    then show ?thesis unfolding rx ry True by (intro mult_right_mono) simp_all
  next
    case False
    with exy have lt: "ex < ey" by simp
    have "- 1074 \<le> ex" by (simp add: ex_def fl_exp_ge)
    with lt have ey: "ey = ilog2 y - 52" using y by (simp add: ey_def fl_exp_def)
    have ex: "ilog2 x - 52 \<le> ex" using x by (simp add: ex_def fl_exp_def)
    have "x < pow2 (ilog2 x + 1)" using x by (rule ilog2_bounds)
    also have "\<dots> \<le> pow2 (ex + 53)" using ex by simp
    finally have "x / pow2 ex < pow2 53" by (simp add: pos_divide_less_eq pow2_add mult.commute)
    then have "x / pow2 ex \<le> of_int (2 ^ 53)" by (simp add: pow2_def)
    then have "rne (x / pow2 ex) \<le> 2 ^ 53" by (rule rne_le)
    then have "(of_int (rne (x / pow2 ex)) :: rat) \<le> of_int (2 ^ 53)" by (simp only: of_int_le_iff)
    then have "of_int (rne (x / pow2 ex)) \<le> pow2 53" by (simp add: pow2_def)
    then have "round53 x \<le> pow2 53 * pow2 ex" unfolding rx by (intro mult_right_mono) simp_all
    also have "\<dots> = pow2 (ex + 53)" by (simp add: pow2_add)
    also have "\<dots> \<le> pow2 (ey + 52)" using lt by simp
    finally have up: "round53 x \<le> pow2 (ey + 52)" .
    have "pow2 (ilog2 y) \<le> y" using y by (rule ilog2_bounds)
    then have "pow2 (ey + 52) \<le> y" by (simp add: ey)
    then have "pow2 52 \<le> y / pow2 ey" by (simp add: pos_le_divide_eq pow2_add mult.commute)
    then have "of_int (2 ^ 52) \<le> y / pow2 ey" by (simp add: pow2_def)
    then have "2 ^ 52 \<le> rne (y / pow2 ey)" by (rule rne_ge)
    then have "(of_int (2 ^ 52) :: rat) \<le> of_int (rne (y / pow2 ey))" by (simp only: of_int_le_iff)
    then have "pow2 52 \<le> of_int (rne (y / pow2 ey))" by (simp add: pow2_def)
    then have "pow2 52 * pow2 ey \<le> round53 y" unfolding ry by (intro mult_right_mono) simp_all
    then have "pow2 (ey + 52) \<le> round53 y" by (simp add: pow2_add mult.commute)
    with up show ?thesis by linarith
  qed
qed

lemma round53_mono:
  assumes "x \<le> y"
  shows "round53 x \<le> round53 y"
proof -
  consider "0 < x" | "x \<le> 0" "0 \<le> y" | "y < 0" by linarith
  then show ?thesis
  proof cases
    case 1
    then show ?thesis using assms by (rule round53_mono_pos)
  next
    case 2
    have "0 \<le> round53 (- x)" using 2(1) by (intro round53_nonneg) simp
    then have "round53 x \<le> 0" by (simp add: round53_minus)
    also have "0 \<le> round53 y" using 2(2) by (rule round53_nonneg)
    finally show ?thesis .
  next
    case 3
    then have "0 < - y" "- y \<le> - x" using assms by simp_all
    then have "round53 (- y) \<le> round53 (- x)" by (rule round53_mono_pos)
    then show ?thesis by (simp add: round53_minus)
  qed
qed

subsection \<open>Values that rounding keeps\<close>

lemma fl_Fin_iff: "fl q = Fin r \<longleftrightarrow> round53 q = r \<and> - (2 ^ 1024) < r \<and> r < 2 ^ 1024"
  by (auto simp: fl_def Let_def)

lemma fl_fixD:
  assumes "fl q = Fin q"
  shows "round53 q = q" "- (2 ^ 1024) < q" "q < 2 ^ 1024"
  using assms by (simp_all add: fl_Fin_iff)

lemma fl_between:
  assumes "lo \<le> q" "q \<le> hi" "fl lo = Fin lo" "fl hi = Fin hi"
  shows "\<exists>r. fl q = Fin r \<and> lo \<le> r \<and> r \<le> hi"
proof -
  have "round53 lo \<le> round53 q" "round53 q \<le> round53 hi"
    using assms(1,2) by (simp_all add: round53_mono)
  then have "lo \<le> round53 q" "round53 q \<le> hi"
    using fl_fixD(1)[OF assms(3)] fl_fixD(1)[OF assms(4)] by simp_all
  moreover have "- (2 ^ 1024) < lo" "hi < 2 ^ 1024"
    using fl_fixD(2)[OF assms(3)] fl_fixD(3)[OF assms(4)] by simp_all
  ultimately have "fl q = Fin (round53 q) \<and> lo \<le> round53 q \<and> round53 q \<le> hi"
    by (simp add: fl_Fin_iff)
  then show ?thesis by blast
qed

lemma fl_0 [simp]: "fl 0 = Fin 0"
  by (simp add: fl_Fin_iff)

lemma fl_int:
  assumes "\<bar>k\<bar> \<le> 2 ^ 53"
  shows "fl (of_int k) = Fin (of_int k)"
proof -
  have r: "round53 (of_int k) = of_int k"
  proof (cases "\<bar>k\<bar> < 2 ^ 53")
    case True
    then show ?thesis using round53_dyadic[of k 0] by simp
  next
    case False
    with assms have "\<bar>k\<bar> = 2 ^ 53" by simp
    then have "k = 2 ^ 53 \<or> k = - (2 ^ 53)" by linarith
    then have "(of_int k :: rat) = of_int (2 ^ 52) * pow2 1 \<or> (of_int k :: rat) = of_int (- (2 ^ 52)) * pow2 1"
      by auto
    then show ?thesis
      using round53_dyadic[of "2 ^ 52" 1] round53_dyadic[of "- (2 ^ 52)" 1] by auto
  qed
  have "(of_int \<bar>k\<bar> :: rat) \<le> of_int (2 ^ 53)" using assms by (simp only: of_int_le_iff)
  then have "\<bar>of_int k :: rat\<bar> \<le> 2 ^ 53" by simp
  then have "- (2 ^ 1024) < (of_int k :: rat) \<and> (of_int k :: rat) < 2 ^ 1024"
    by (simp add: abs_le_iff)
  with r show ?thesis by (simp add: fl_Fin_iff)
qed

lemma fl_1 [simp]: "fl 1 = Fin 1"
  using fl_int[of 1] by simp

subsection \<open>Euclid's algorithm on natural numbers\<close>

lemma trunc_nonneg: "0 \<le> q \<Longrightarrow> trunc q = \<lfloor>q\<rfloor>"
  by (simp add: trunc_def)

lemma jsmod_nat:
  assumes "0 < b"
  shows "jsmod (Fin (of_nat a)) (Fin (of_nat b)) = Fin (of_nat (a mod b))"
proof -
  have "trunc (of_nat a / of_nat b :: rat) = int (a div b)"
    by (simp add: trunc_nonneg floor_divide_of_nat_eq)
  moreover have "(of_nat a :: rat) - of_nat b * of_nat (a div b) = of_nat (a mod b)"
    by (metis add_diff_cancel_left' mult_div_mod_eq of_nat_add of_nat_mult)
  ultimately show ?thesis using assms by (simp add: jsmod_def)
qed

declare g.simps [simp del]

lemma g_falsy: "\<not> truthy b \<Longrightarrow> g a b = a"
  by (subst g.simps) simp

lemma g_truthy: "truthy b \<Longrightarrow> g a b = g b (jsmod a b)"
  by (subst g.simps) simp

lemma g_nat: "g (Fin (of_nat a)) (Fin (of_nat b)) = Fin (of_nat (gcd a b))"
proof (induction a b rule: gcd_nat_induct)
  case (base m)
  then show ?case by (simp add: g_falsy)
next
  case (step m n)
  have "g (Fin (of_nat m)) (Fin (of_nat n)) = g (Fin (of_nat n)) (jsmod (Fin (of_nat m)) (Fin (of_nat n)))"
    using step(1) by (intro g_truthy) simp
  also have "\<dots> = Fin (of_nat (gcd n (m mod n)))"
    using step by (simp add: jsmod_nat)
  also have "gcd n (m mod n) = gcd m n" by (simp add: gcd_red_nat[of m n])
  finally show ?case .
qed

subsection \<open>Rounding is idempotent\<close>

lemma round53_dyadic_le:
  assumes m: "\<bar>m\<bar> \<le> 2 ^ 53" and e: "- 1074 \<le> e"
  shows "round53 (of_int m * pow2 e) = of_int m * pow2 e"
proof (cases "\<bar>m\<bar> < 2 ^ 53")
  case True
  then show ?thesis using e by (rule round53_dyadic)
next
  case False
  with m have "\<bar>m\<bar> = 2 ^ 53" by simp
  then have "m = 2 ^ 53 \<or> m = - (2 ^ 53)" by linarith
  then have "(of_int m :: rat) * pow2 e = of_int (2 ^ 52) * pow2 (e + 1)
      \<or> (of_int m :: rat) * pow2 e = of_int (- (2 ^ 52)) * pow2 (e + 1)"
    by (auto simp: pow2_Suc)
  then show ?thesis
    using round53_dyadic[of "2 ^ 52" "e + 1"] round53_dyadic[of "- (2 ^ 52)" "e + 1"] e by auto
qed

lemma mantissa_bound:
  assumes "q \<noteq> 0"
  shows "\<bar>rne (q / pow2 (fl_exp q))\<bar> \<le> 2 ^ 53"
proof -
  have q: "0 < \<bar>q\<bar>" using assms by simp
  have "ilog2 \<bar>q\<bar> - 52 \<le> fl_exp q" by (simp add: fl_exp_def)
  then have "pow2 (ilog2 \<bar>q\<bar> + 1) \<le> pow2 (fl_exp q + 53)" by simp
  with ilog2_bounds(2)[OF q] have "\<bar>q\<bar> < pow2 (fl_exp q + 53)" by linarith
  then have "\<bar>q\<bar> / pow2 (fl_exp q) < pow2 53"
    by (simp add: pos_divide_less_eq pow2_add mult.commute)
  then have lt: "\<bar>q\<bar> / pow2 (fl_exp q) < 2 ^ 53" by (simp add: pow2_def)
  define t where "t = q / pow2 (fl_exp q)"
  have "\<bar>t\<bar> = \<bar>q\<bar> / pow2 (fl_exp q)" by (simp add: t_def)
  with lt have "t \<le> 2 ^ 53" "- (2 ^ 53) \<le> t" by linarith+
  then have t: "t \<le> of_int (2 ^ 53)" "of_int (- (2 ^ 53)) \<le> t" by simp_all
  have "rne t \<le> 2 ^ 53" using t(1) by (rule rne_le)
  moreover have "- (2 ^ 53) \<le> rne t" using t(2) by (rule rne_ge)
  ultimately show ?thesis unfolding t_def by linarith
qed

lemma round53_idem: "round53 (round53 q) = round53 q"
proof (cases "q = 0")
  case False
  have "round53 q = of_int (rne (q / pow2 (fl_exp q))) * pow2 (fl_exp q)"
    using False by (simp add: round53_def)
  moreover have "round53 (of_int (rne (q / pow2 (fl_exp q))) * pow2 (fl_exp q))
      = of_int (rne (q / pow2 (fl_exp q))) * pow2 (fl_exp q)"
    using mantissa_bound[OF False] fl_exp_ge[of q] by (rule round53_dyadic_le)
  ultimately show ?thesis by simp
qed simp

lemma fl_idem: "fl q = Fin r \<Longrightarrow> fl r = Fin r"
  by (auto simp: fl_Fin_iff round53_idem)

lemma is_double_fl [simp]: "is_double (fl q)"
  by (cases "fl q") (simp_all add: is_double_def fl_idem)

lemma jsdiv_1:
  assumes "is_double a"
  shows "jsdiv a (Fin 1) = a"
  using assms by (cases a) (simp_all add: jsdiv_def is_double_def)

lemma fl_finite_le:
  assumes "\<bar>q\<bar> \<le> b" "fl b = Fin b"
  shows "\<exists>r. fl q = Fin r \<and> \<bar>r\<bar> \<le> b"
proof -
  have nb: "fl (- b) = Fin (- b)" using assms(2) by (auto simp: fl_Fin_iff round53_minus)
  have "- b \<le> q" "q \<le> b" using assms(1) by linarith+
  from fl_between[OF this nb assms(2)] show ?thesis by (auto simp: abs_le_iff)
qed

lemma fl_pow2:
  assumes "- 1074 \<le> k" "k < 1024"
  shows "fl (pow2 k) = Fin (pow2 k)"
proof -
  have "round53 (of_int 1 * pow2 k) = of_int 1 * pow2 k"
    using assms(1) by (intro round53_dyadic) simp_all
  moreover have "pow2 k < pow2 1024" using assms(2) by simp
  then have "pow2 k < 2 ^ 1024" by (simp add: pow2_def)
  moreover have "- (2 ^ 1024) < pow2 k" using pow2_pos[of k] by (rule less_trans[rotated]) simp
  ultimately show ?thesis by (simp add: fl_Fin_iff)
qed

lemma double_ge_2_53_int:
  assumes "fl q = Fin q" "2 ^ 53 \<le> q"
  shows "q \<in> \<int>"
proof -
  have q: "0 < q" using assms(2) by (rule less_le_trans[rotated]) simp
  have r: "round53 q = q" using assms(1) by (simp add: fl_Fin_iff)
  have "pow2 53 \<le> q" using assms(2) by (simp add: pow2_def)
  also have "q < pow2 (ilog2 q + 1)" using q by (rule ilog2_bounds)
  finally have "53 \<le> ilog2 q" by simp
  then have e: "1 \<le> fl_exp q" using q by (simp add: fl_exp_def)
  then have "pow2 (fl_exp q) = of_int (2 ^ nat (fl_exp q))" by (simp add: pow2_nat)
  then have "round53 q = of_int (rne (q / pow2 (fl_exp q)) * 2 ^ nat (fl_exp q))"
    using q by (simp add: round53_def)
  with r show ?thesis by (metis Ints_of_int)
qed

subsection \<open>Evaluating the rounding at a given number\<close>

lemma floor_numeral_div [simp]:
  "\<lfloor>(numeral a :: rat) / numeral b\<rfloor> = numeral a div numeral b"
  using floor_divide_of_int_eq[of "numeral a" "numeral b", where ?'a = rat] by simp

lemma floor_neg_numeral_div [simp]:
  "\<lfloor>- ((numeral a :: rat) / numeral b)\<rfloor> = - numeral a div numeral b"
  using floor_divide_of_int_eq[of "- numeral a" "numeral b", where ?'a = rat] by simp

lemma fl_eqI:
  assumes "pow2 k \<le> \<bar>q\<bar>" "\<bar>q\<bar> < pow2 (k + 1)" "e = max (k - 52) (- 1074)"
    and "rne (q / pow2 e) = m" "r = of_int m * pow2 e" "\<bar>r\<bar> < 2 ^ 1024"
  shows "fl q = Fin r"
proof -
  have "ilog2 \<bar>q\<bar> = k" using assms(1,2) by (rule ilog2_eqI)
  then have e: "fl_exp q = e" by (simp add: fl_exp_def assms(3))
  have "0 < \<bar>q\<bar>" using assms(1) pow2_pos[of k] by linarith
  then have "q \<noteq> 0" by simp
  then have "round53 q = r" by (simp add: round53_def e assms(4,5))
  then show ?thesis using assms(6) by (simp add: fl_Fin_iff abs_less_iff)
qed

lemma fl_numeral [simp]:
  "numeral w \<le> (2 ^ 53 :: int) \<Longrightarrow> fl (numeral w) = Fin (numeral w)"
  using fl_int[of "numeral w"] by simp

lemma fl_fixI:
  assumes "round53 q = q" "\<bar>q\<bar> < 2 ^ 1024"
  shows "fl q = Fin q"
  using assms by (simp add: fl_Fin_iff abs_less_iff)

lemma fl_dyadic_div:
  assumes "\<bar>m\<bar> < 2 ^ 53" "k \<le> 1074"
  shows "fl (of_int m / 2 ^ k) = Fin (of_int m / 2 ^ k)"
proof (rule fl_fixI)
  have eq: "(of_int m :: rat) / 2 ^ k = of_int m * pow2 (- int k)"
    by (simp add: pow2_def field_simps)
  have "round53 (of_int m * pow2 (- int k)) = of_int m * pow2 (- int k)"
    using assms by (intro round53_dyadic) simp_all
  then show "round53 (of_int m / 2 ^ k) = of_int m / 2 ^ k" by (simp only: eq)
  have "\<bar>of_int m :: rat\<bar> * 1 \<le> \<bar>of_int m\<bar> * 2 ^ k" by (intro mult_left_mono) simp_all
  then have "\<bar>(of_int m :: rat) / 2 ^ k\<bar> \<le> \<bar>of_int m\<bar>"
    by (simp add: abs_divide pos_divide_le_eq)
  also have "\<bar>of_int m :: rat\<bar> < 2 ^ 53" using assms(1)
    by (metis of_int_abs of_int_less_iff of_int_numeral of_int_power)
  also have "(2::rat) ^ 53 < 2 ^ 1024" by (rule power_strict_increasing) simp_all
  finally show "\<bar>(of_int m :: rat) / 2 ^ k\<bar> < 2 ^ 1024" .
qed

lemma fl_neg_numeral [simp]:
  "numeral w \<le> (2 ^ 53 :: int) \<Longrightarrow> fl (- numeral w) = Fin (- numeral w)"
  using fl_int[of "- numeral w"] by simp

lemma floor_one_div_numeral [simp]:
  "\<lfloor>(1 :: rat) / numeral b\<rfloor> = 1 div numeral b"
  using floor_divide_of_int_eq[of 1 "numeral b", where ?'a = rat] by simp

lemma floor_neg_one_div_numeral [simp]:
  "\<lfloor>- ((1 :: rat) / numeral b)\<rfloor> = - 1 div numeral b"
  using floor_divide_of_int_eq[of "- 1" "numeral b", where ?'a = rat] by simp


subsection \<open>Integers among the binary64 values\<close>

lemma fl_nat:
  assumes "n \<le> 2 ^ 53"
  shows "fl (of_nat n) = Fin (of_nat n)"
proof -
  have "\<bar>int n\<bar> \<le> 2 ^ 53" using assms by (simp add: of_nat_le_iff[of n "2 ^ 53", where ?'a = int, simplified])
  from fl_int[OF this] show ?thesis by simp
qed

lemma of_nat_div_exact:
  assumes "b dvd a" "0 < b"
  shows "(of_nat a :: rat) / of_nat b = of_nat (a div b)"
proof -
  from assms(1) obtain c where "a = b * c" by (auto simp: dvd_def)
  with assms(2) show ?thesis by simp
qed

lemma odd_part:
  assumes "0 < (k::nat)"
  shows "\<exists>a j. k = j * 2 ^ a \<and> odd j"
  using assms
proof (induction k rule: less_induct)
  case (less k)
  show ?case
  proof (cases "odd k")
    case True
    then show ?thesis by (intro exI[of _ 0] exI[of _ k]) simp
  next
    case False
    then obtain h where h: "k = 2 * h" by (auto elim: evenE)
    with less.prems have "0 < h" "h < k" by simp_all
    from less.IH[OF this(2) this(1)] obtain a j where "h = j * 2 ^ a" "odd j" by blast
    then show ?thesis using h by (intro exI[of _ "Suc a"] exI[of _ j]) simp
  qed
qed

lemma representable_nat_form:
  assumes fx: "fl (of_nat N) = Fin (of_nat N)" and N: "0 < N"
  shows "\<exists>m e. N = m * 2 ^ e \<and> m < 2 ^ 53"
proof -
  define q :: rat where "q = of_nat N"
  have q0: "0 < q" using N by (simp add: q_def)
  have r: "round53 q = q" using fx by (simp add: fl_Fin_iff q_def)
  define e0 where "e0 = fl_exp q"
  define t where "t = rne (q / pow2 e0)"
  have qt: "q = of_int t * pow2 e0" using r q0 by (simp add: round53_def t_def e0_def)
  have tb: "\<bar>t\<bar> \<le> 2 ^ 53" unfolding t_def e0_def using q0 by (intro mantissa_bound) simp
  have t0: "0 < t"
  proof -
    have "0 < of_int t * pow2 e0" using q0 qt by simp
    moreover have "\<not> pow2 e0 < 0" using pow2_pos[of e0] by linarith
    ultimately have "(0::rat) < of_int t" by (auto simp: zero_less_mult_iff)
    then show ?thesis by simp
  qed
  show ?thesis
  proof (cases "0 \<le> e0")
    case True
    have "(of_nat N :: rat) = of_int (t * 2 ^ nat e0)"
      using qt True by (simp add: q_def pow2_nat)
    then have "int N = t * 2 ^ nat e0" by (metis of_int_eq_iff of_int_of_nat_eq)
    then have Nt: "N = nat t * 2 ^ nat e0" using t0
      by (metis nat_int nat_mult_distrib nat_numeral nat_power_eq zero_le_numeral less_imp_le)
    show ?thesis
    proof (cases "t < 2 ^ 53")
      case True
      then have "nat t < 2 ^ 53" using t0 by (simp add: nat_less_iff)
      with Nt show ?thesis by blast
    next
      case False
      with tb t0 have "t = 2 ^ 53" by simp
      then have "N = 2 ^ 52 * 2 ^ (nat e0 + 1)" using Nt by simp
      moreover have "(2::nat) ^ 52 < 2 ^ 53" by simp
      ultimately show ?thesis by blast
    qed
  next
    case False
    then have "e0 < 0" by simp
    moreover have "ilog2 \<bar>q\<bar> - 52 \<le> e0" by (simp add: e0_def fl_exp_def)
    ultimately have "ilog2 q + 1 \<le> 52" using q0 by simp
    then have "pow2 (ilog2 q + 1) \<le> pow2 52" by simp
    with ilog2_bounds(2)[OF q0] have "q < pow2 52" by linarith
    then have "(of_nat N :: rat) < of_nat (2 ^ 52)" by (simp add: q_def pow2_def)
    then have "N < 2 ^ 52" by (simp only: of_nat_less_iff)
    then have "N = N * 2 ^ 0 \<and> N < 2 ^ 53" by simp
    then show ?thesis by blast
  qed
qed

lemma divisor_representable:
  assumes fx: "fl (of_nat N) = Fin (of_nat N)" and N: "0 < N" and k: "k dvd N"
  shows "fl (of_nat k) = Fin (of_nat k)"
proof (rule fl_fixI)
  obtain m e where me: "N = m * 2 ^ e" "m < 2 ^ 53" using representable_nat_form[OF fx N] by blast
  have k0: "0 < k" using k N by (auto intro: Nat.gr0I)
  obtain a j where aj: "k = j * 2 ^ a" "odd j" using odd_part[OF k0] by blast
  have m0: "0 < m" using me(1) N by (auto intro: Nat.gr0I)
  have "j dvd m * 2 ^ e" using k aj(1) me(1) by (metis dvd_mult_left)
  moreover have "coprime j (2 ^ e)" using aj(2) by (simp add: coprime_right_2_iff_odd)
  ultimately have "j dvd m" by (simp add: coprime_dvd_mult_left_iff)
  then have "j \<le> m" using m0 by (rule dvd_imp_le)
  with me(2) have j: "j < 2 ^ 53" by simp
  have eq: "(of_nat k :: rat) = of_int (int j) * pow2 (int a)" by (simp add: aj(1) pow2_def)
  have "\<bar>int j\<bar> < 2 ^ 53" using j by (simp add: of_nat_less_iff[of j "2 ^ 53", where ?'a = int, simplified])
  then have "round53 (of_int (int j) * pow2 (int a)) = of_int (int j) * pow2 (int a)"
    by (rule round53_dyadic) simp
  then show "round53 (of_nat k) = of_nat k" by (simp only: eq)
  have "k \<le> N" using k N by (rule dvd_imp_le)
  then have "(of_nat k :: rat) \<le> of_nat N" by simp
  moreover have "(of_nat N :: rat) < 2 ^ 1024" using fl_fixD(3)[OF fx] .
  ultimately show "\<bar>of_nat k :: rat\<bar> < 2 ^ 1024" by simp
qed

subsection \<open>The numerator of the fraction reducer\<close>

lemma frac_in_unit:
  "\<exists>f. jssub (Math_abs (Fin x)) (Math_floor (Math_abs (Fin x))) = Fin f \<and> 0 \<le> f \<and> f \<le> 1"
proof -
  have "0 \<le> \<bar>x\<bar> - of_int \<lfloor>\<bar>x\<bar>\<rfloor>" "\<bar>x\<bar> - of_int \<lfloor>\<bar>x\<bar>\<rfloor> \<le> 1" by linarith+
  from fl_between[OF this fl_0 fl_1] show ?thesis
    by (simp add: jssub_def jsadd_def jsneg_def Math_abs_def Math_floor_def)
qed

lemma jsdiv_nat_exact:
  assumes "b dvd a" "0 < b" "fl (of_nat (a div b)) = Fin (of_nat (a div b))"
  shows "jsdiv (Fin (of_nat a)) (Fin (of_nat b)) = Fin (of_nat (a div b))"
proof -
  have "jsdiv (Fin (of_nat a)) (Fin (of_nat b)) = fl (of_nat a / of_nat b)"
    using assms(2) by (simp add: jsdiv_def)
  also have "\<dots> = fl (of_nat (a div b))"
    by (simp only: of_nat_div_exact[OF assms(1,2)])
  also have "\<dots> = Fin (of_nat (a div b))" by (rule assms(3))
  finally show ?thesis .
qed

lemma rounded_numerator:
  assumes d: "fl (of_nat d) = Fin (of_nat d)"
  shows "\<exists>n. Math_round (jsmul (jssub (Math_abs (Fin x)) (Math_floor (Math_abs (Fin x))))
            (Fin (of_nat d))) = Fin (of_nat n) \<and> n \<le> d \<and> fl (of_nat n) = Fin (of_nat n)"
proof -
  obtain f where f: "jssub (Math_abs (Fin x)) (Math_floor (Math_abs (Fin x))) = Fin f"
    "0 \<le> f" "f \<le> 1" using frac_in_unit by blast
  have lo: "0 \<le> f * of_nat d" using f(2) by simp
  have "f * of_nat d \<le> 1 * of_nat d" using f(3) by (intro mult_right_mono) simp_all
  then have hi: "f * of_nat d \<le> of_nat d" by simp
  obtain r where r: "fl (f * of_nat d) = Fin r" "0 \<le> r" "r \<le> of_nat d"
    using fl_between[OF lo hi fl_0 d] by blast
  have rr: "fl r = Fin r" using r(1) by (rule fl_idem)
  define n where "n = nat \<lfloor>r + 1 / 2\<rfloor>"
  have "0 \<le> \<lfloor>r + 1 / 2\<rfloor>" using r(2) by simp
  then have n: "of_int \<lfloor>r + 1 / 2\<rfloor> = (of_nat n :: rat)" by (simp add: n_def)
  have "\<lfloor>r + 1 / 2\<rfloor> \<le> int d"
  proof -
    have "r + 1 / 2 < of_int (int d) + 1" using r(3) by simp
    then show ?thesis by (simp only: floor_less_iff[symmetric] zle_add1_eq_le[symmetric]) linarith
  qed
  then have nd: "n \<le> d" by (simp add: n_def)
  have rep: "fl (of_nat n) = Fin (of_nat n)"
  proof (cases "r < 2 ^ 53")
    case True
    then have "r + 1 / 2 < of_int (2 ^ 53) + 1" by simp
    then have "\<lfloor>r + 1 / 2\<rfloor> \<le> 2 ^ 53"
      by (simp only: floor_less_iff[symmetric] zle_add1_eq_le[symmetric]) linarith
    then have "n \<le> 2 ^ 53" by (simp add: n_def nat_le_iff)
    then show ?thesis by (rule fl_nat)
  next
    case False
    then have "2 ^ 53 \<le> r" by simp
    with rr have "r \<in> \<int>" by (rule double_ge_2_53_int)
    then obtain i where i: "r = of_int i" by (auto elim: Ints_cases)
    have "\<lfloor>r + 1 / 2\<rfloor> = i" unfolding i by (rule floor_unique) simp_all
    then have "(of_nat n :: rat) = r" using n by (simp add: i)
    then show ?thesis using rr by simp
  qed
  from n nd rep show ?thesis by (auto simp: f(1) jsmul_def r(1) Math_round_def)
qed


lemma inchesToFraction_Fin:
  "inchesToFraction (Fin x) dn =
     (let nm = Math_round (jsmul (jssub (Math_abs (Fin x)) (Math_floor (Math_abs (Fin x)))) dn);
          sg = (if x < 0 then ''-'' else [])
      in if jseq nm dn
         then \<lparr>sign = sg, whole = jsadd (Math_floor (Math_abs (Fin x))) (Fin 1), num = Fin 0, denom = dn\<rparr>
         else \<lparr>sign = sg, whole = Math_floor (Math_abs (Fin x)),
                num = jsdiv nm (if truthy (g nm dn) then g nm dn else Fin 1),
                denom = jsdiv dn (if truthy (g nm dn) then g nm dn else Fin 1)\<rparr>)"
  by (simp add: inchesToFraction_def Let_def jslt_def)

subsection \<open>Reading back the characters of a numeral in fixed notation\<close>

text \<open>
  \<open>Number_numstr\<close> reads a string of \<open>toFixed\<close> from what the string denotes.  The
  characters that \<open>render\<close> gives for it, read by \<open>Number\<close> with the grammar of
  \<open>StringToNumber\<close>, give the same number.
\<close>

declare digits.simps [simp del]

lemma less_10_cases:
  assumes "(d::nat) < 10"
  shows "d = 0 \<or> d = 1 \<or> d = 2 \<or> d = 3 \<or> d = 4 \<or> d = 5 \<or> d = 6 \<or> d = 7 \<or> d = 8 \<or> d = 9"
  using assms by arith

lemma digit_char_simps: "digit_char 0 = CHR ''0''" "digit_char 1 = CHR ''1''" "digit_char 2 = CHR ''2''"
  "digit_char 3 = CHR ''3''" "digit_char 4 = CHR ''4''" "digit_char 5 = CHR ''5''"
  "digit_char 6 = CHR ''6''" "digit_char 7 = CHR ''7''" "digit_char 8 = CHR ''8''"
  "digit_char 9 = CHR ''9''"
  by (simp_all add: digit_char_def)

lemma of_char_digit_char:
  assumes "d < 10"
  shows "(of_char (digit_char d) :: nat) = 48 + d"
proof -
  from less_10_cases[OF assms] show ?thesis
    by (elim disjE) (simp_all only: digit_char_simps, simp_all)
qed

lemma is_digit_digit_char: "d < 10 \<Longrightarrow> is_digit (digit_char d)"
  by (simp add: is_digit_def of_char_digit_char)

lemma decimal_digit_is_digit: "is_digit c \<Longrightarrow> decimal_digit c = Some ((of_char c :: nat) - 48)"
  by (simp add: is_digit_def decimal_digit_def)

lemma radix_value_digits:
  assumes "\<forall>c \<in> set xs. is_digit c"
  shows "radix_value decimal_digit 10 acc xs
           = Some (foldl (\<lambda>a c. a * 10 + ((of_char c :: nat) - 48)) acc xs)"
  using assms by (induction xs arbitrary: acc) (simp_all add: decimal_digit_is_digit)

lemma foldl_digits_acc:
  "foldl (\<lambda>a c. a * 10 + ((of_char c :: nat) - 48)) acc xs
     = acc * 10 ^ length xs + foldl (\<lambda>a c. a * 10 + ((of_char c :: nat) - 48)) 0 xs"
proof (induction xs rule: rev_induct)
  case Nil
  then show ?case by simp
next
  case (snoc x xs)
  show ?case by (simp add: snoc.IH algebra_simps)
qed

lemma digit_value_append:
  "digit_value (xs @ ys) = digit_value xs * 10 ^ length ys + digit_value ys"
  unfolding digit_value_def foldl_append by (rule foldl_digits_acc)

lemma digit_value_snoc:
  "digit_value (xs @ [c]) = digit_value xs * 10 + ((of_char c :: nat) - 48)"
  by (simp add: digit_value_def)

lemma digit_value_Cons_zero: "digit_value (CHR ''0'' # xs) = digit_value xs"
  using digit_value_append[of "[CHR ''0'']" xs] by (simp add: digit_value_def)

lemma digit_value_zeros: "digit_value (replicate k CHR ''0'' @ xs) = digit_value xs"
  by (induction k) (simp_all add: digit_value_Cons_zero)

lemma digits_all: "\<forall>c \<in> set (digits n). is_digit c"
proof (induction n rule: digits.induct)
  case (1 n)
  show ?case
  proof (cases "n < 10")
    case True
    then have "digits n = [digit_char n]" by (subst digits.simps) (simp del: digits.simps)
    then show ?thesis using True by (simp add: is_digit_digit_char del: digits.simps)
  next
    case False
    then have IH: "\<forall>c \<in> set (digits (n div 10)). is_digit c" by (rule 1)
    from False have "digits n = digits (n div 10) @ [digit_char (n mod 10)]"
      by (subst digits.simps) (simp del: digits.simps)
    then show ?thesis using IH by (simp add: is_digit_digit_char del: digits.simps)
  qed
qed

lemma digit_value_digits: "digit_value (digits n) = n"
proof (induction n rule: digits.induct)
  case (1 n)
  show ?case
  proof (cases "n < 10")
    case True
    then have "digits n = [digit_char n]" by (subst digits.simps) (simp del: digits.simps)
    then show ?thesis using True by (simp add: digit_value_def of_char_digit_char del: digits.simps)
  next
    case False
    then have IH: "digit_value (digits (n div 10)) = n div 10" by (rule 1)
    from False have "digits n = digits (n div 10) @ [digit_char (n mod 10)]"
      by (subst digits.simps) (simp del: digits.simps)
    then show ?thesis by (simp add: digit_value_snoc IH of_char_digit_char del: digits.simps)
  qed
qed

lemma digits_nonempty: "digits n \<noteq> []"
  by (subst digits.simps) (simp del: digits.simps)

lemma is_digit_chars:
  assumes "is_digit c"
  shows "c \<noteq> CHR ''.''" "c \<noteq> CHR ''e''" "c \<noteq> CHR ''E''" "c \<noteq> CHR ''+''" "c \<noteq> CHR ''-''"
    "c \<noteq> CHR ''I''" "\<not> StrWhiteSpaceChar c"
    "c \<noteq> CHR ''x''" "c \<noteq> CHR ''X''" "c \<noteq> CHR ''o''" "c \<noteq> CHR ''O''" "c \<noteq> CHR ''b''" "c \<noteq> CHR ''B''"
  using assms by (auto simp: is_digit_def StrWhiteSpaceChar_def)

lemma is_digit_zero [simp]: "is_digit CHR ''0''"
  by (simp add: is_digit_def)

lemma trim_id:
  assumes "s \<noteq> []" "\<not> StrWhiteSpaceChar (hd s)" "\<not> StrWhiteSpaceChar (last s)"
  shows "trim s = s"
proof -
  from assms(1,2) have A: "dropWhile StrWhiteSpaceChar s = s" by (cases s) simp_all
  have B: "dropWhile StrWhiteSpaceChar t = t" if "t \<noteq> []" "\<not> StrWhiteSpaceChar (hd t)" for t
    using that by (cases t) simp_all
  from assms(1,3) have "dropWhile StrWhiteSpaceChar (rev s) = rev s"
    by (intro B) (simp_all add: hd_rev)
  with A show ?thesis by (simp add: trim_def)
qed

lemma StrUnsignedDecimalLiteral_digits:
  assumes ip: "\<forall>c \<in> set ip. is_digit c" and fp: "\<forall>c \<in> set fp. is_digit c"
    and ne: "ip \<noteq> []" and tail: "tail = [] \<and> fp = [] \<or> tail = CHR ''.'' # fp"
  shows "StrUnsignedDecimalLiteral (ip @ tail)
           = Some (of_nat (digit_value ip) + of_nat (digit_value fp) / 10 ^ length fp)"
proof -
  let ?P = "\<lambda>c. c \<noteq> CHR ''e'' \<and> c \<noteq> CHR ''E''"
  let ?Q = "\<lambda>c. c \<noteq> CHR ''.''"
  have dP: "?P c" if "is_digit c" for c
    using is_digit_chars(2,3)[OF that] by simp
  have tailP: "\<forall>c \<in> set tail. ?P c"
    using tail fp dP by (elim disjE) simp_all
  have all: "\<forall>c \<in> set (ip @ tail). ?P c"
    using ip dP tailP by (simp add: ball_Un)
  have mant: "takeWhile ?P (ip @ tail) = ip @ tail"
    using all by (simp only: takeWhile_eq_all_conv)
  have rest: "dropWhile ?P (ip @ tail) = []"
    using all by (simp only: dropWhile_eq_Nil_conv)
  have ipq: "\<And>c. c \<in> set ip \<Longrightarrow> ?Q c"
    using ip is_digit_chars(1) by blast
  have tw: "takeWhile ?Q tail = []"
    using tail by (elim disjE) simp_all
  have dw: "dropWhile ?Q tail = tail"
    using tail by (elim disjE) simp_all
  have ip': "takeWhile ?Q (ip @ tail) = ip"
    using takeWhile_append2[of ip ?Q tail] ipq tw by simp
  have rest2: "dropWhile ?Q (ip @ tail) = tail"
    using dropWhile_append2[of ip ?Q tail] ipq dw by simp
  have fp': "(if tail = [] then [] else tl tail) = fp"
    using tail by (elim disjE) simp_all
  have vi: "radix_value decimal_digit 10 0 ip = Some (digit_value ip)"
    using radix_value_digits[OF ip, of 0] by (simp add: digit_value_def)
  have vf: "radix_value decimal_digit 10 0 fp = Some (digit_value fp)"
    using radix_value_digits[OF fp, of 0] by (simp add: digit_value_def)
  have "StrUnsignedDecimalLiteral (ip @ tail)
          = (if ip = [] \<and> fp = [] then None
             else Some ((of_nat (digit_value ip) + of_nat (digit_value fp) / 10 ^ length fp) * pow10 0))"
    unfolding StrUnsignedDecimalLiteral_def Let_def mant rest ip' rest2 fp' vi vf
    by (simp only: if_True prod.case option.case simp_thms)
  then show ?thesis
    using ne by (simp add: pow10_def)
qed

lemma NonDecimalIntegerLiteral_plain:
  assumes "\<forall>c \<in> set t. plain c"
  shows "NonDecimalIntegerLiteral t = None"
proof -
  have A: "take 2 t \<noteq> [a, b]" if "\<not> plain b" for a b
  proof
    assume "take 2 t = [a, b]"
    then have "b \<in> set (take 2 t)" by simp
    then have "b \<in> set t" by (rule in_set_takeD)
    with assms that show False by blast
  qed
  have "\<not> plain CHR ''x''" "\<not> plain CHR ''X''" "\<not> plain CHR ''o''" "\<not> plain CHR ''O''"
    "\<not> plain CHR ''b''" "\<not> plain CHR ''B''"
    by (simp_all add: plain_def is_digit_def)
  then show ?thesis
    unfolding NonDecimalIntegerLiteral_def by (simp only: A if_False simp_thms)
qed

lemma plain_not_white: "plain c \<Longrightarrow> \<not> StrWhiteSpaceChar c"
  by (auto simp: plain_def is_digit_def StrWhiteSpaceChar_def)

lemma StrDecimalLiteral_digits:
  assumes ip: "\<forall>c \<in> set ip. is_digit c" and fp: "\<forall>c \<in> set fp. is_digit c"
    and ne: "ip \<noteq> []" and tail: "tail = [] \<and> fp = [] \<or> tail = CHR ''.'' # fp"
  shows "StrDecimalLiteral ((if sg then ''-'' else []) @ ip @ tail)
           = Some (LitValue ((if sg then - 1 else 1)
                     * (of_nat (digit_value ip) + of_nat (digit_value fp) / 10 ^ length fp)))"
proof -
  have hd_ip: "is_digit (hd ip)" using ip ne by simp
  have body: "ip @ tail \<noteq> []" "hd (ip @ tail) = hd ip" using ne by simp_all
  have noinf: "ip @ tail \<noteq> ''Infinity''"
  proof
    assume "ip @ tail = ''Infinity''"
    then have "hd (ip @ tail) = CHR ''I''" by simp
    with body(2) hd_ip is_digit_chars(6) show False by metis
  qed
  note U = StrUnsignedDecimalLiteral_digits[OF ip fp ne tail]
  show ?thesis
  proof (cases sg)
    case True
    then show ?thesis
      unfolding StrDecimalLiteral_def Let_def using noinf U by simp
  next
    case False
    have "hd (ip @ tail) \<noteq> CHR ''+''" "hd (ip @ tail) \<noteq> CHR ''-''"
      using body(2) hd_ip is_digit_chars(4,5) by metis+
    then show ?thesis
      unfolding StrDecimalLiteral_def Let_def using False noinf U by simp
  qed
qed

lemma StringNumericLiteral_digits:
  assumes ip: "\<forall>c \<in> set ip. is_digit c" and fp: "\<forall>c \<in> set fp. is_digit c"
    and ne: "ip \<noteq> []" and tail: "tail = [] \<and> fp = [] \<or> tail = CHR ''.'' # fp"
  shows "StringNumericLiteral ((if sg then ''-'' else []) @ ip @ tail)
           = Some (LitValue ((if sg then - 1 else 1)
                     * (of_nat (digit_value ip) + of_nat (digit_value fp) / 10 ^ length fp)))"
proof -
  let ?s = "(if sg then ''-'' else []) @ ip @ tail"
  have tailp: "\<forall>c \<in> set tail. plain c"
    using tail fp by (elim disjE) (simp_all add: plain_def)
  have pl: "\<forall>c \<in> set ?s. plain c"
    using ip tailp by (simp add: plain_def ball_Un)
  have s_ne: "?s \<noteq> []" using ne by simp
  then have "hd ?s \<in> set ?s" "last ?s \<in> set ?s"
    by (rule hd_in_set, rule last_in_set)
  with pl have "\<not> StrWhiteSpaceChar (hd ?s)" "\<not> StrWhiteSpaceChar (last ?s)"
    using plain_not_white by blast+
  with s_ne have T: "trim ?s = ?s" by (rule trim_id)
  have N: "NonDecimalIntegerLiteral ?s = None"
    using pl by (rule NonDecimalIntegerLiteral_plain)
  show ?thesis
    unfolding StringNumericLiteral_def Let_def T N
    using s_ne StrDecimalLiteral_digits[OF ip fp ne tail, of sg] by (simp only: if_False option.case)
qed

lemma render_shape:
  "\<exists>ip fp tail. render (Decimal sg n f) = Some ((if sg then ''-'' else []) @ ip @ tail)
      \<and> (\<forall>c \<in> set ip. is_digit c) \<and> (\<forall>c \<in> set fp. is_digit c) \<and> ip \<noteq> []
      \<and> (tail = [] \<and> fp = [] \<or> tail = CHR ''.'' # fp)
      \<and> length fp = f \<and> digit_value ip * 10 ^ f + digit_value fp = n"
proof (cases "f = 0")
  case True
  have "render (Decimal sg n f) = Some ((if sg then ''-'' else []) @ digits n @ [])"
    using True by (simp add: render_def)
  then show ?thesis
    using True digits_all[of n] digits_nonempty[of n] digit_value_digits[of n]
    by (intro exI[of _ "digits n"] exI[of _ "[]"]) (simp add: digit_value_def)
next
  case False
  define m' where "m' = (if length (digits n) \<le> f
                         then replicate (f + 1 - length (digits n)) CHR ''0'' @ digits n
                         else digits n)"
  define k where "k = length m'"
  have dig: "\<forall>c \<in> set m'. is_digit c"
    using digits_all[of n] by (auto simp: m'_def)
  have val: "digit_value m' = n"
    by (simp add: m'_def digit_value_zeros digit_value_digits)
  have len: "f < k"
    by (simp add: k_def m'_def) 
  have R: "render (Decimal sg n f)
            = Some ((if sg then ''-'' else []) @ take (k - f) m' @ CHR ''.'' # drop (k - f) m')"
    using False by (simp add: render_def Let_def m'_def k_def)
  have ne: "take (k - f) m' \<noteq> []"
    using len by (auto simp: k_def)
  have lf: "length (drop (k - f) m') = f"
    using len by (simp add: k_def)
  have "digit_value (take (k - f) m' @ drop (k - f) m') = n"
    using val by simp
  then have v: "digit_value (take (k - f) m') * 10 ^ f + digit_value (drop (k - f) m') = n"
    by (simp only: digit_value_append lf)
  have d1: "\<forall>c \<in> set (take (k - f) m'). is_digit c"
    using dig in_set_takeD by fast
  have d2: "\<forall>c \<in> set (drop (k - f) m'). is_digit c"
    using dig in_set_dropD by fast
  show ?thesis
    using R ne lf v d1 d2
    by (intro exI[of _ "take (k - f) m'"] exI[of _ "drop (k - f) m'"]
          exI[of _ "CHR ''.'' # drop (k - f) m'"]) simp
qed

lemma Number_NumberToString:
  "Number ''NaN'' = NaN" "Number ''Infinity'' = PInf" "Number ''-Infinity'' = NInf"
  by (simp_all add: Number_def StringNumericLiteral_def trim_def StrWhiteSpaceChar_def
      NonDecimalIntegerLiteral_def StrDecimalLiteral_def StrUnsignedDecimalLiteral_def
      decimal_digit_def)

lemma Number_render:
  assumes "render d = Some s"
  shows "Number s = Number_numstr d"
proof (cases d)
  case (Decimal sg n f)
  obtain ip fp tail where
    R: "render (Decimal sg n f) = Some ((if sg then ''-'' else []) @ ip @ tail)"
    and ip: "\<forall>c \<in> set ip. is_digit c" and fp: "\<forall>c \<in> set fp. is_digit c" and ne: "ip \<noteq> []"
    and tail: "tail = [] \<and> fp = [] \<or> tail = CHR ''.'' # fp"
    and lf: "length fp = f" and v: "digit_value ip * 10 ^ f + digit_value fp = n"
    using render_shape[of sg n f] by blast
  have s: "s = (if sg then ''-'' else []) @ ip @ tail"
    using assms R Decimal by simp
  have "(of_nat n :: rat) = of_nat (digit_value ip) * 10 ^ f + of_nat (digit_value fp)"
    by (simp add: v[symmetric])
  then have "(of_nat n :: rat) / 10 ^ f
               = of_nat (digit_value ip) + of_nat (digit_value fp) / 10 ^ length fp"
    by (simp add: lf field_simps)
  then have "(if sg then - 1 else 1) * (of_nat n :: rat) / 10 ^ f
               = (if sg then - 1 else 1)
                   * (of_nat (digit_value ip) + of_nat (digit_value fp) / 10 ^ length fp)"
    by simp
  then show ?thesis
    unfolding s Decimal Number_def StringNumericLiteral_digits[OF ip fp ne tail]
    by (simp add: Number_numstr_def)
next
  case (NumberToString x)
  then show ?thesis
    using assms by (cases x) (auto simp: render_def Number_numstr_def Number_NumberToString)
qed

declare digits.simps [simp]


subsection \<open>Printing and reading back with a fixed number of decimals\<close>

lemma fl_nonneg_cases:
  assumes "0 \<le> q"
  shows "fl q = PInf \<or> (\<exists>r. fl q = Fin r \<and> 0 \<le> r)"
proof -
  have "0 \<le> round53 q" using assms by (rule round53_nonneg)
  then show ?thesis by (auto simp: fl_def Let_def)
qed

lemma ToIntegerOrInfinity_2 [simp]: "ToIntegerOrInfinity (Fin 2) = Fin 2"
  by (simp add: ToIntegerOrInfinity_def trunc_def)

lemma toFixed2_nonneg:
  assumes "0 \<le> q" "fl q = Fin q"
  shows "\<exists>s. toFixed (Fin q) (Fin 2) = Inr s \<and> Number_numstr s = spec_round 2 (Fin q)
           \<and> (q < 10 ^ 21 \<longrightarrow> s = Decimal False (nat \<lfloor>q * 100 + 1 / 2\<rfloor>) 2)"
proof (cases "q < 10 ^ 21")
  case True
  have "0 \<le> \<lfloor>q * 100 + 1 / 2\<rfloor>" using assms(1) by simp
  then have "(of_nat (nat \<lfloor>q * 100 + 1 / 2\<rfloor>) :: rat) = of_int \<lfloor>q * 100 + 1 / 2\<rfloor>" by simp
  then show ?thesis using True assms(1)
    by (simp add: toFixed_def Number_numstr_def spec_round_def)
next
  case False
  then have big: "10 ^ 21 \<le> q" by simp
  have "(2::rat) ^ 53 \<le> 10 ^ 21" by simp
  with big have "2 ^ 53 \<le> q" by linarith
  with assms(2) have "q \<in> \<int>" by (rule double_ge_2_53_int)
  then obtain k where k: "q = of_int k" by (auto elim: Ints_cases)
  have "\<lfloor>q * 100 + 1 / 2\<rfloor> = k * 100"
    unfolding k by (rule floor_unique) simp_all
  then have "of_int \<lfloor>q * 100 + 1 / 2\<rfloor> / 100 = q" by (simp add: k)
  then have "spec_round 2 (Fin q) = Fin q" by (simp add: spec_round_def assms(2))
  then show ?thesis using big False assms(1)
    by (simp add: toFixed_def Number_numstr_def)
qed

lemma percentage_cases:
  assumes "0 < a" "0 < b"
  shows "jsmul (jsdiv (Fin a) (Fin b)) (Fin 100) = PInf
       \<or> (\<exists>q. jsmul (jsdiv (Fin a) (Fin b)) (Fin 100) = Fin q \<and> 0 \<le> q \<and> fl q = Fin q)"
proof -
  have d: "jsdiv (Fin a) (Fin b) = fl (a / b)" using assms(2) by (simp add: jsdiv_def)
  have "0 \<le> a / b" using assms by simp
  from fl_nonneg_cases[OF this] show ?thesis
  proof
    assume "fl (a / b) = PInf"
    then show ?thesis by (simp add: d jsmul_def)
  next
    assume "\<exists>r. fl (a / b) = Fin r \<and> 0 \<le> r"
    then obtain r where r: "fl (a / b) = Fin r" "0 \<le> r" by blast
    have m: "jsmul (jsdiv (Fin a) (Fin b)) (Fin 100) = fl (r * 100)" by (simp add: d r(1) jsmul_def)
    have "0 \<le> r * 100" using r(2) by simp
    from fl_nonneg_cases[OF this] show ?thesis
      by (auto simp: m dest: fl_idem)
  qed
qed

lemma percent_same_scale:
  assumes "n \<noteq> 0"
  shows "percent (Fin n) (Fin n) = Inr (StringValue (Decimal False 10000 2))"
  using assms by (simp add: percent_def jsdiv_def jsmul_def toFixed_def)

lemma percent_14_18:
  "percent (Fin 14) (Fin 18) = Inr (StringValue (Decimal False 7778 2))"
proof -
  have "fl (7 / 9) = Fin (of_int 7005599420354105 * pow2 (- 53))"
    by (rule fl_eqI[where k = "- 1" and e = "- 53" and m = 7005599420354105])
       (simp_all add: pow2_def rne_def Let_def)
  then have a: "fl (7 / 9) = Fin (7005599420354105 / 9007199254740992)" by (simp add: pow2_def)
  have "fl (175139985508852625 / 2251799813685248) = Fin (of_int 5473124547151645 * pow2 (- 46))"
    by (rule fl_eqI[where k = 6 and e = "- 46" and m = 5473124547151645])
       (simp_all add: pow2_def rne_def Let_def)
  then have b: "fl (175139985508852625 / 2251799813685248) = Fin (5473124547151645 / 70368744177664)"
    by (simp add: pow2_def)
  show ?thesis by (simp add: percent_def jsdiv_def jsmul_def toFixed_def a b)
qed

lemma render_examples:
  "render (Decimal False 10000 2) = Some ''100.00''" "render (Decimal False 7778 2) = Some ''77.78''"
  by (simp_all add: render_def digit_char_def)


lemma decimal_finite:
  assumes q: "\<bar>q :: rat\<bar> < 10 ^ 21"
  shows "\<exists>r. fl ((if sg then - 1 else 1) * of_nat (nat \<lfloor>\<bar>q\<bar> * 10 ^ k + 1 / 2\<rfloor>) / 10 ^ k) = Fin r"
proof -
  define n where "n = nat \<lfloor>\<bar>q\<bar> * 10 ^ k + 1 / 2\<rfloor>"
  have "0 \<le> \<lfloor>\<bar>q\<bar> * 10 ^ k + 1 / 2\<rfloor>" by simp
  then have "(of_nat n :: rat) = of_int \<lfloor>\<bar>q\<bar> * 10 ^ k + 1 / 2\<rfloor>" by (simp add: n_def)
  then have "(of_nat n :: rat) \<le> \<bar>q\<bar> * 10 ^ k + 1 / 2" by simp
  then have "(of_nat n :: rat) / 10 ^ k \<le> (\<bar>q\<bar> * 10 ^ k + 1 / 2) / 10 ^ k"
    by (intro divide_right_mono) simp_all
  also have "\<dots> = \<bar>q\<bar> + (1 / 2) / 10 ^ k" by (simp add: add_divide_distrib)
  finally have "(of_nat n :: rat) / 10 ^ k \<le> \<bar>q\<bar> + (1 / 2) / 10 ^ k" .
  moreover have "(1 / 2 :: rat) / 10 ^ k \<le> (1 / 2) / 1"
    by (intro divide_left_mono) simp_all
  then have "(1 / 2 :: rat) / 10 ^ k \<le> 1 / 2" by (simp only: div_by_1)
  ultimately have "(of_nat n :: rat) / 10 ^ k \<le> \<bar>q\<bar> + 1 / 2" by linarith
  also have "\<dots> < 10 ^ 21 + 1" using q by simp
  also have "\<dots> \<le> (pow2 70 :: rat)" by (simp add: pow2_def)
  finally have b: "(of_nat n :: rat) / 10 ^ k \<le> pow2 70" by simp
  have nn: "0 \<le> (of_nat n :: rat) / 10 ^ k" by simp
  have "\<bar>(if sg then - 1 else 1) * of_nat n / 10 ^ k :: rat\<bar> = of_nat n / 10 ^ k"
    by (simp add: abs_mult)
  with b have "\<bar>(if sg then - 1 else 1) * of_nat n / 10 ^ k :: rat\<bar> \<le> pow2 70" by simp
  from fl_finite_le[OF this fl_pow2] show ?thesis unfolding n_def by auto
qed

lemma round_js_finite:
  assumes "valid_precision dp"
  shows "\<exists>r. round_js v dp = Inr (Fin r)"
proof (cases v)
  case (Fin q)
  from assms obtain f where f: "ToIntegerOrInfinity dp = Fin f" "0 \<le> f" "f \<le> 100"
    by (auto simp: valid_precision_def split: jsnum.splits)
  show ?thesis
  proof (cases "10 ^ 21 \<le> \<bar>q\<bar>")
    case True
    then show ?thesis using f by (simp add: round_js_def Fin toFixed_def Number_numstr_def)
  next
    case False
    then have "\<bar>q\<bar> < 10 ^ 21" by simp
    from decimal_finite[OF this, of "q < 0" "nat \<lfloor>f\<rfloor>"] show ?thesis
      using f False by (simp add: round_js_def Fin toFixed_def Number_numstr_def)
  qed
qed (simp_all add: round_js_def)

lemma round_js_not_finite: "\<not> isFinite v \<Longrightarrow> round_js v dp = Inr (Fin 0)"
  by (simp add: round_js_def)

lemma clamp_range:
  assumes "v \<noteq> NaN" "lo \<le> hi"
  shows "\<exists>r. clamp v (Fin lo) (Fin hi) = Fin r \<and> lo \<le> r \<and> r \<le> hi"
  using assms by (cases v) (auto simp: clamp_def Math_max_def Math_min_def jslt_def)

lemma clamp_NaN [simp]: "clamp NaN a b = NaN"
  by (simp add: clamp_def Math_max_def Math_min_def)

lemma valid_precision_setDecimals: "valid_precision (setDecimals s)"
proof (cases "Number s = NaN")
  case True
  then show ?thesis by (simp add: setDecimals_def valid_precision_def ToIntegerOrInfinity_def)
next
  case False
  from clamp_range[OF this, of 0 6] obtain r where
    r: "clamp (Number s) (Fin 0) (Fin 6) = Fin r" "0 \<le> r" "r \<le> 6" by auto
  have "(of_int \<lfloor>r\<rfloor> :: rat) \<le> r" by simp
  with r(3) have "(of_int \<lfloor>r\<rfloor> :: rat) \<le> 100" by linarith
  then show ?thesis using r
    by (simp add: setDecimals_def valid_precision_def ToIntegerOrInfinity_def trunc_def)
qed

lemma valid_precision_3 [simp]: "valid_precision (Fin 3)"
  by (simp add: valid_precision_def ToIntegerOrInfinity_def trunc_def)

lemma metricOut_finite:
  assumes "valid_precision dp"
  shows "\<exists>a b c. metricOut x dp = Inr \<lparr>out_mm = Fin a, out_cm = Fin b, out_m = Fin c\<rparr>"
proof -
  from round_js_finite[OF assms] obtain a b c where
    "round_js x dp = Inr (Fin a)" "round_js (jsdiv x (Fin 10)) dp = Inr (Fin b)"
    "round_js (jsdiv x (Fin 1000)) dp = Inr (Fin c)" by meson
  then show ?thesis by (simp add: metricOut_def)
qed

lemma imperialOut_finite:
  assumes "valid_precision dp"
  shows "\<exists>a b. imperialOut x dp dn
     = Inr \<lparr>out_in = Fin a, out_ft = Fin b, out_frac = inchesToFraction (jsdiv x lit_25_4) dn\<rparr>"
proof -
  from round_js_finite[OF assms] obtain a b where
    "round_js (jsdiv x lit_25_4) dp = Inr (Fin a)"
    "round_js (jsdiv (jsdiv x lit_25_4) (Fin 12)) dp = Inr (Fin b)" by meson
  then show ?thesis by (simp add: imperialOut_def Let_def)
qed

lemma fl_overflow:
  assumes "2 ^ 1024 \<le> q"
  shows "fl q = PInf"
proof -
  have "pow2 1024 \<le> q" using assms by (simp add: pow2_def)
  then have "round53 (pow2 1024) \<le> round53 q" by (rule round53_mono)
  moreover have "round53 (of_int 1 * pow2 1024) = of_int 1 * pow2 1024"
    by (intro round53_dyadic) simp_all
  ultimately have "2 ^ 1024 \<le> round53 q" by (simp add: pow2_def)
  then show ?thesis by (simp add: fl_def Let_def)
qed

lemma fl_dyadic:
  assumes "\<bar>m\<bar> < 2 ^ 53" "- 1074 \<le> e" "e \<le> 971"
  shows "fl (of_int m * pow2 e) = Fin (of_int m * pow2 e)"
proof (rule fl_fixI)
  show "round53 (of_int m * pow2 e) = of_int m * pow2 e" using assms(1,2) by (rule round53_dyadic)
  have "\<bar>of_int m :: rat\<bar> < 2 ^ 53" using assms(1)
    by (metis of_int_abs of_int_less_iff of_int_numeral of_int_power)
  then have "\<bar>of_int m :: rat\<bar> < pow2 53" by (simp add: pow2_def)
  then have "\<bar>of_int m * pow2 e\<bar> < pow2 53 * pow2 e"
    by (simp add: abs_mult)
  also have "\<dots> = pow2 (e + 53)" by (simp add: pow2_add)
  also have "\<dots> \<le> pow2 1024" using assms(3) by simp
  also have "\<dots> = 2 ^ 1024" by (simp add: pow2_def)
  finally show "\<bar>of_int m * pow2 e\<bar> < 2 ^ 1024" .
qed

lemma literal_1e308: "StringNumericLiteral ''1e308'' = Some (LitValue (10 ^ 308))"
  by (simp add: StringNumericLiteral_def trim_def StrWhiteSpaceChar_def NonDecimalIntegerLiteral_def
      StrDecimalLiteral_def StrUnsignedDecimalLiteral_def Let_def decimal_digit_def SignedInteger_def
      DecimalDigits_def pow10_def)

lemma Number_1e308: "\<exists>r. Number ''1e308'' = Fin r \<and> pow2 1023 \<le> r"
proof -
  have lo: "pow2 1023 \<le> (10 ^ 308 :: rat)" by (simp add: pow2_def)
  have hi: "(10 ^ 308 :: rat) \<le> of_int (2 ^ 53 - 1) * pow2 971" by (simp add: pow2_def)
  have flo: "fl (pow2 1023) = Fin (pow2 1023)" by (rule fl_pow2) simp_all
  have fhi: "fl (of_int (2 ^ 53 - 1) * pow2 971) = Fin (of_int (2 ^ 53 - 1) * pow2 971)"
    by (rule fl_dyadic) simp_all
  from fl_between[OF lo hi flo fhi] show ?thesis by (auto simp: Number_def literal_1e308)
qed

lemma activeUnit_m:
  "system st = ''metric'' \<Longrightarrow> metricUnit st = ''m'' \<Longrightarrow> toMM (activeUnit st) = (\<lambda>v. jsmul v (Fin 1000))"
  by (simp add: activeUnit_def unitList_def activeUnitKey_def METRIC_UNITS_def)

lemma activeUnit_mm:
  "system st = ''metric'' \<Longrightarrow> metricUnit st = ''mm'' \<Longrightarrow> toMM (activeUnit st) = (\<lambda>v. v)"
  by (simp add: activeUnit_def unitList_def activeUnitKey_def METRIC_UNITS_def)

lemma metres_overflow:
  assumes "pow2 1023 \<le> r"
  shows "jsmul (Fin r) (Fin 1000) = PInf"
proof -
  have "(2::rat) ^ 1024 \<le> pow2 1023 * 1000" by (simp add: pow2_def)
  also have "\<dots> \<le> r * 1000" using assms by simp
  finally show ?thesis by (simp add: jsmul_def fl_overflow)
qed

lemma clamp_10 [simp]: "clamp (Fin 10) (Fin 1) (Fin 72) = Fin 10"
  by (simp add: clamp_def Math_max_def Math_min_def jslt_def)

lemma overflow_example:
  "ScaleConverter_mmScaled (initial_state\<lparr>inputValue := ''1e308'', metricUnit := ''m''\<rparr>) = PInf"
proof -
  obtain r where r: "Number ''1e308'' = Fin r" "pow2 1023 \<le> r" using Number_1e308 by blast
  have "jsmul (Fin r) (Fin 1000) = PInf" using r(2) by (rule metres_overflow)
  then show ?thesis
    by (simp add: ScaleConverter_mmScaled_def Let_def initial_state_def activeUnit_m jsdiv_def r(1))
qed

lemma outputs_at_overflow:
  "metricOut PInf (Fin 3) = Inr \<lparr>out_mm = Fin 0, out_cm = Fin 0, out_m = Fin 0\<rparr>"
  "imperialOut PInf (Fin 3) (Fin 16) = Inr \<lparr>out_in = Fin 0, out_ft = Fin 0,
     out_frac = \<lparr>sign = [], whole = Fin 0, num = Fin 0, denom = Fin 16\<rparr>\<rparr>"
proof -
  have l: "lit_25_4 = Fin (3574732204225331 / 2 ^ 47)"
  proof -
    have "fl (127 / 5) = Fin (of_int 7149464408450662 * pow2 (- 48))"
      by (rule fl_eqI[where k = 4 and e = "- 48" and m = 7149464408450662])
         (simp_all add: pow2_def rne_def Let_def)
    then show ?thesis by (simp add: lit_25_4_def pow2_def)
  qed
  show "metricOut PInf (Fin 3) = Inr \<lparr>out_mm = Fin 0, out_cm = Fin 0, out_m = Fin 0\<rparr>"
    by (simp add: metricOut_def round_js_def jsdiv_def)
  show "imperialOut PInf (Fin 3) (Fin 16) = Inr \<lparr>out_in = Fin 0, out_ft = Fin 0,
     out_frac = \<lparr>sign = [], whole = Fin 0, num = Fin 0, denom = Fin 16\<rparr>\<rparr>"
    by (simp add: imperialOut_def round_js_def jsdiv_def l inchesToFraction_def)
qed


subsection \<open>The measurement converter\<close>

lemma round_js_Inr_valid:
  assumes "round_js (Fin q) dp = Inr a"
  shows "valid_precision dp"
  using assms
  by (auto simp: round_js_def toFixed_def valid_precision_def split: jsnum.splits if_splits)

lemma metricOut_mm:
  "map_sum id out_mm (metricOut (Fin q) dp) = round_js (Fin q) dp"
proof (cases "round_js (Fin q) dp")
  case (Inl e)
  then show ?thesis by (simp add: metricOut_def)
next
  case (Inr a)
  then have "valid_precision dp" by (rule round_js_Inr_valid)
  from round_js_finite[OF this] obtain b c where
    "round_js (jsdiv (Fin q) (Fin 10)) dp = Inr (Fin b)"
    "round_js (jsdiv (Fin q) (Fin 1000)) dp = Inr (Fin c)" by meson
  then show ?thesis using Inr by (simp add: metricOut_def)
qed

lemma clamp_in_range:
  assumes "1 \<le> c" "c \<le> 72"
  shows "clamp (Fin c) (Fin 1) (Fin 72) = Fin c"
  using assms by (simp add: clamp_def Math_max_def Math_min_def jslt_def)

lemma round_js_spec:
  assumes "0 \<le> q" "fl q = Fin q" "k \<le> 100"
  shows "round_js (Fin q) (Fin (of_nat k)) = Inr (spec_round k (Fin q))"
proof -
  have t: "ToIntegerOrInfinity (Fin (of_nat k)) = Fin (of_nat k)"
    by (simp add: ToIntegerOrInfinity_def trunc_def)
  have k: "(of_nat k :: rat) \<le> 100" using assms(3)
    by (metis of_nat_le_iff of_nat_numeral)
  show ?thesis
  proof (cases "q < 10 ^ 21")
    case True
    have "0 \<le> \<lfloor>q * 10 ^ k + 1 / 2\<rfloor>" using assms(1) by simp
    then have "(of_nat (nat \<lfloor>q * 10 ^ k + 1 / 2\<rfloor>) :: rat) = of_int \<lfloor>q * 10 ^ k + 1 / 2\<rfloor>" by simp
    then show ?thesis using True assms(1) k
      by (simp add: round_js_def toFixed_def t Number_numstr_def spec_round_def)
  next
    case False
    then have big: "10 ^ 21 \<le> q" by simp
    have "(2::rat) ^ 53 \<le> 10 ^ 21" by simp
    with big have "2 ^ 53 \<le> q" by linarith
    with assms(2) have "q \<in> \<int>" by (rule double_ge_2_53_int)
    then obtain i where i: "q = of_int i" by (auto elim: Ints_cases)
    have "q * 10 ^ k = of_int (i * 10 ^ k)" by (simp add: i)
    then have "\<lfloor>q * 10 ^ k + 1 / 2\<rfloor> = i * 10 ^ k"
      by (simp only:) (rule floor_unique, simp_all)
    then have "of_int \<lfloor>q * 10 ^ k + 1 / 2\<rfloor> / 10 ^ k = q" by (simp add: i)
    then have "spec_round k (Fin q) = Fin q" by (simp add: spec_round_def assms(2))
    then show ?thesis using big False assms(1) k
      by (simp add: round_js_def toFixed_def t Number_numstr_def)
  qed
qed

lemma jsdiv_le_dividend:
  assumes "0 \<le> v" "fl v = Fin v" "1 \<le> c"
  shows "\<exists>q. jsdiv (Fin v) (Fin c) = Fin q \<and> 0 \<le> q \<and> q \<le> v \<and> fl q = Fin q"
proof -
  have c: "0 < c" using assms(3) by linarith
  have "0 \<le> v / c" using assms(1) c by simp
  moreover have "v / c \<le> v / 1" using assms(1,3) by (intro divide_left_mono) simp_all
  then have "v / c \<le> v" by simp
  ultimately obtain r where "fl (v / c) = Fin r" "0 \<le> r" "r \<le> v"
    using fl_between[OF _ _ fl_0 assms(2)] by blast
  then show ?thesis using c by (auto simp: jsdiv_def dest: fl_idem)
qed

lemma Number_fl: "Number s = Fin v \<Longrightarrow> fl v = Fin v"
  by (auto simp: Number_def split: option.splits numlit.splits if_splits dest: fl_idem)

lemma is_double_Number [simp]: "is_double (Number s)"
  by (cases "Number s") (simp_all add: is_double_def Number_fl)

lemma is_double_jsmul [simp]: "is_double (jsmul a b)"
  by (cases a; cases b) (simp_all add: jsmul_def is_double_def fl_idem split: jsnum.splits)

lemma is_double_0 [simp]: "is_double (Fin 0)"
  by (simp add: is_double_def)

lemma is_double_toMM:
  assumes "is_double v"
  shows "is_double (toMM (activeUnit st) v)"
  using assms
  by (auto simp: activeUnit_def unitList_def METRIC_UNITS_def IMPERIAL_UNITS_def
      split: option.splits if_splits)

lemma literal_100: "StringNumericLiteral ''100'' = Some (LitValue 100)"
  by (simp add: StringNumericLiteral_def trim_def StrWhiteSpaceChar_def NonDecimalIntegerLiteral_def
      StrDecimalLiteral_def StrUnsignedDecimalLiteral_def Let_def decimal_digit_def pow10_def)

lemma Number_100: "Number ''100'' = Fin 100"
  by (simp add: Number_def literal_100)


lemma unitList_inputValue [simp]: "unitList (st\<lparr>inputValue := s\<rparr>) = unitList st"
  by (simp add: unitList_def)

lemma activeUnitKey_inputValue [simp]: "activeUnitKey (st\<lparr>inputValue := s\<rparr>) = activeUnitKey st"
  by (simp add: activeUnitKey_def)

lemma activeUnit_inputValue [simp]: "activeUnit (st\<lparr>inputValue := s\<rparr>) = activeUnit st"
  by (simp add: activeUnit_def cong: option.case_cong)

lemma activeUnit_scaleN [simp]: "activeUnit (st\<lparr>scaleN := s\<rparr>) = activeUnit st"
  by (simp add: activeUnit_def unitList_def activeUnitKey_def cong: option.case_cong)

lemma initial_state_fields [simp]:
  "system initial_state = ''metric''" "metricUnit initial_state = ''mm''"
  "imperialUnit initial_state = ''in''" "inputValue initial_state = ''100''"
  "scaleN initial_state = Fin 10" "inchDenom initial_state = Fin 16" "decimals initial_state = Fin 3"
  by (simp_all add: initial_state_def)

lemma activeUnit_initial [simp]: "toMM (activeUnit initial_state) = (\<lambda>v. v)"
  by (rule activeUnit_mm) simp_all

lemma literal_144: "StringNumericLiteral ''144'' = Some (LitValue 144)"
  by (simp add: StringNumericLiteral_def trim_def StrWhiteSpaceChar_def NonDecimalIntegerLiteral_def
      StrDecimalLiteral_def StrUnsignedDecimalLiteral_def Let_def decimal_digit_def pow10_def)

lemma literal_1000: "StringNumericLiteral ''1000'' = Some (LitValue 1000)"
  by (simp add: StringNumericLiteral_def trim_def StrWhiteSpaceChar_def NonDecimalIntegerLiteral_def
      StrDecimalLiteral_def StrUnsignedDecimalLiteral_def Let_def decimal_digit_def pow10_def)

lemma literal_1_000: "StringNumericLiteral ''1,000'' = None"
  by (simp add: StringNumericLiteral_def trim_def StrWhiteSpaceChar_def NonDecimalIntegerLiteral_def
      StrDecimalLiteral_def StrUnsignedDecimalLiteral_def Let_def decimal_digit_def pow10_def)

lemma ScaleConverter_strips_commas:
  "ScaleConverter_mmScaled (st\<lparr>inputValue := filter (\<lambda>c. c \<noteq> CHR '','') (inputValue st)\<rparr>)
     = ScaleConverter_mmScaled st"
  by (simp add: ScaleConverter_mmScaled_def)

lemma not_finite_input_is_zero:
  "\<not> isFinite (Number (inputValue st)) \<Longrightarrow> MeasurementConverter_mmScaled st = Fin 0"
  "\<not> isFinite (Number (filter (\<lambda>c. c \<noteq> CHR '','') (inputValue st))) \<Longrightarrow>
     ScaleConverter_mmScaled st = jsdiv (toMM (activeUnit st) (Fin 0)) (clamp (scaleN st) (Fin 1) (Fin 72))"
  by (simp_all add: MeasurementConverter_mmScaled_def ScaleConverter_mmScaled_def Let_def)


lemma ALL_SCALES_iff: "Fin x \<in> set ALL_SCALES \<longleftrightarrow> (\<exists>i<72. x = of_nat i + 1)"
  by (auto simp: ALL_SCALES_def)

lemma ALL_SCALES_range:
  assumes "Fin x \<in> set ALL_SCALES"
  shows "1 \<le> x" "x \<le> 72"
proof -
  from assms obtain i :: nat where i: "i < 72" "x = of_nat i + 1" by (auto simp: ALL_SCALES_iff)
  show "1 \<le> x" by (simp add: i(2))
  have "i + 1 \<le> 72" using i(1) by simp
  then have "(of_nat (i + 1) :: rat) \<le> of_nat 72" by (simp only: of_nat_le_iff)
  then show "x \<le> 72" by (simp add: i(2))
qed

lemma clamp_Fin: "clamp (Fin x) (Fin 1) (Fin 72) = Fin (min (max x 1) 72)"
  by (simp add: clamp_def Math_max_def Math_min_def jslt_def min_def max_def)

lemma jsdiv_not_finite:
  assumes "\<not> isFinite a" "0 < c"
  shows "jsdiv a (Fin c) = a"
  using assms by (cases a) (simp_all add: jsdiv_def)


subsection \<open>The error of one rounding, and of a conversion there and back\<close>

lemma eta_pos: "0 < eta"
  by (simp add: eta_def)

lemma round53_error:
  "\<bar>round53 q - q\<bar> \<le> \<bar>q\<bar> / 2 ^ 53 + eta"
proof (cases "q = 0")
  case True
  then show ?thesis using eta_pos by simp
next
  case False
  define e where "e = fl_exp q"
  define t where "t = q / pow2 e"
  have q: "q = t * pow2 e" by (simp add: t_def)
  have r: "round53 q = of_int (rne t) * pow2 e" using False by (simp add: round53_def e_def t_def)
  have "round53 q - q = (of_int (rne t) - t) * pow2 e"
    unfolding r by (subst q) (simp add: algebra_simps)
  then have "\<bar>round53 q - q\<bar> = \<bar>of_int (rne t) - t\<bar> * pow2 e"
    by (simp add: abs_mult)
  also have "\<dots> \<le> (1 / 2) * pow2 e"
    using rne_error[of t] by (intro mult_right_mono) simp_all
  also have "\<dots> = pow2 (e - 1)" by (simp add: pow2_diff)
  finally have b: "\<bar>round53 q - q\<bar> \<le> pow2 (e - 1)" .
  have aq: "0 < \<bar>q\<bar>" using False by simp
  show ?thesis
  proof (cases "e = - 1074")
    case True
    then have "pow2 (e - 1) = eta" by (simp add: eta_def)
    moreover have "0 \<le> \<bar>q\<bar> / 2 ^ 53" by simp
    ultimately show ?thesis using b by linarith
  next
    case False
    then have e: "e = ilog2 \<bar>q\<bar> - 52" by (simp add: e_def fl_exp_def max_def split: if_splits)
    have "pow2 (e - 1) = pow2 (ilog2 \<bar>q\<bar>) * pow2 (- 53)" by (simp add: e pow2_add[symmetric])
    also have "\<dots> \<le> \<bar>q\<bar> * pow2 (- 53)"
      using ilog2_bounds(1)[OF aq] by (intro mult_right_mono) simp_all
    also have "\<dots> = \<bar>q\<bar> / 2 ^ 53" by (simp add: pow2_def)
    finally show ?thesis using b eta_pos by linarith
  qed
qed

lemma fl_error:
  assumes "fl q = Fin r"
  shows "\<bar>r - q\<bar> \<le> \<bar>q\<bar> / 2 ^ 53 + eta"
  using assms round53_error[of q] by (simp add: fl_Fin_iff)

lemma fl_abs:
  assumes "fl r = Fin r"
  shows "fl \<bar>r\<bar> = Fin \<bar>r\<bar>"
  using assms by (cases "0 \<le> r") (auto simp: fl_Fin_iff round53_minus abs_if)

lemma fl_shrink:
  assumes "fl r = Fin r" "\<bar>q\<bar> \<le> \<bar>r\<bar>"
  shows "\<exists>w. fl q = Fin w"
  using fl_finite_le[OF assms(2) fl_abs[OF assms(1)]] by blast

lemma roundtrip_mul_div:
  assumes c: "1 \<le> c" and r1: "fl (v * c) = Fin r1"
  shows "\<exists>w. fl (r1 / c) = Fin w \<and> \<bar>w - v\<bar> \<le> \<bar>v\<bar> * (3 / 2 ^ 53) + 3 * eta"
proof -
  have c0: "0 < c" using c by linarith
  have "\<bar>r1 / c\<bar> = \<bar>r1\<bar> / c" using c0 by simp
  also have "\<dots> \<le> \<bar>r1\<bar> / 1" using c by (intro divide_left_mono) simp_all
  finally have "\<bar>r1 / c\<bar> \<le> \<bar>r1\<bar>" by simp
  from fl_shrink[OF fl_idem[OF r1] this] obtain w where w: "fl (r1 / c) = Fin w" by blast
  define A where "A = \<bar>v\<bar>"
  define D where "D = \<bar>r1 / c - v\<bar>"
  define B where "B = \<bar>r1 / c\<bar>"
  have a1: "\<bar>r1 - v * c\<bar> \<le> \<bar>v * c\<bar> / 2 ^ 53 + eta" using r1 by (rule fl_error)
  have "r1 / c - v = (r1 - v * c) / c" using c0 by (simp add: diff_divide_distrib)
  then have "D = \<bar>r1 - v * c\<bar> / c" using c0 by (simp only: D_def abs_divide abs_of_pos)
  also have "\<dots> \<le> (\<bar>v * c\<bar> / 2 ^ 53 + eta) / c" using a1 c0 by (intro divide_right_mono) simp_all
  also have "\<dots> = A / 2 ^ 53 + eta / c" using c0 by (simp add: A_def abs_mult add_divide_distrib)
  also have "eta / c \<le> eta / 1" using c eta_pos by (intro divide_left_mono) simp_all
  finally have d: "D \<le> A / 2 ^ 53 + eta" by simp
  have "B \<le> \<bar>v\<bar> + \<bar>r1 / c - v\<bar>" unfolding B_def by linarith
  then have b: "B \<le> A + D" by (simp add: A_def D_def)
  have a2: "\<bar>w - r1 / c\<bar> \<le> B / 2 ^ 53 + eta" unfolding B_def using w by (rule fl_error)
  have "\<bar>w - v\<bar> \<le> \<bar>w - r1 / c\<bar> + D" unfolding D_def by linarith
  with a2 have "\<bar>w - v\<bar> \<le> B / 2 ^ 53 + eta + D" by linarith
  moreover have "0 \<le> A" by (simp add: A_def)
  ultimately have "\<bar>w - v\<bar> \<le> A * (3 / 2 ^ 53) + 3 * eta"
    using b d eta_pos by (simp add: field_simps)
  with w show ?thesis unfolding A_def by blast
qed

lemma lit_25_4_value: "lit_25_4 = Fin (3574732204225331 / 140737488355328)"
proof -
  have "fl (127 / 5) = Fin (of_int 7149464408450662 * pow2 (- 48))"
    by (rule fl_eqI[where k = 4 and e = "- 48" and m = 7149464408450662])
       (simp_all add: pow2_def rne_def Let_def)
  then show ?thesis by (simp add: lit_25_4_def pow2_def)
qed

lemma twelve_lit_25_4_value:
  "jsmul (Fin 12) lit_25_4 = Fin (1340524576584499 / 4398046511104)"
proof -
  have "fl (10724196612675993 / 35184372088832) = Fin (of_int 5362098306337996 * pow2 (- 44))"
    by (rule fl_eqI[where k = 8 and e = "- 44" and m = 5362098306337996])
       (simp_all add: pow2_def rne_def Let_def)
  then show ?thesis by (simp add: lit_25_4_value jsmul_def pow2_def)
qed

lemma roundtrip_feet:
  assumes r1: "fl (v * 12) = Fin r1"
    and r2: "fl (r1 * (3574732204225331 / 140737488355328)) = Fin r2"
  shows "\<exists>w. fl (r2 / (1340524576584499 / 4398046511104)) = Fin w
           \<and> \<bar>w - v\<bar> \<le> \<bar>v\<bar> * (8 / 2 ^ 53) + 8 * eta"
proof -
  define c :: rat where "c = 3574732204225331 / 140737488355328"
  define d :: rat where "d = 1340524576584499 / 4398046511104"
  have d1: "1 \<le> d" and d0: "0 < d" and c0: "0 < c" by (simp_all add: c_def d_def)
  have cd: "12 * c - d = 1 / 2 ^ 45" by (simp add: c_def d_def)
  have "\<bar>r2 / d\<bar> = \<bar>r2\<bar> / d" using d0 by simp
  also have "\<dots> \<le> \<bar>r2\<bar> / 1" using d1 by (intro divide_left_mono) simp_all
  finally have "\<bar>r2 / d\<bar> \<le> \<bar>r2\<bar>" by simp
  from fl_shrink[OF fl_idem[OF r2] this] obtain w where w: "fl (r2 / d) = Fin w" by blast
  define A where "A = \<bar>v\<bar>"
  define R1 where "R1 = \<bar>r1\<bar>"
  define R2 where "R2 = \<bar>r2\<bar>"
  define E1 where "E1 = \<bar>r1 - v * 12\<bar>"
  define E2 where "E2 = \<bar>r2 - r1 * c\<bar>"
  define E3 where "E3 = \<bar>w - r2 / d\<bar>"
  define F where "F = \<bar>r2 - v * d\<bar>"
  have A0: "0 \<le> A" by (simp add: A_def)
  have f4: "E1 \<le> 12 * A / 2 ^ 53 + eta"
    using fl_error[OF r1] by (simp add: E1_def A_def abs_mult)
  have f1: "R1 \<le> 12 * A + E1" unfolding R1_def A_def E1_def by linarith
  have f2: "E2 \<le> c * R1 / 2 ^ 53 + eta"
    using fl_error[OF r2[folded c_def]] c0 by (simp add: E2_def R1_def abs_mult mult.commute)
  have "\<bar>r2\<bar> \<le> \<bar>r1 * c\<bar> + \<bar>r2 - r1 * c\<bar>" by linarith
  then have f3: "R2 \<le> c * R1 + E2" using c0 by (simp add: R2_def R1_def E2_def abs_mult mult.commute)
  have "r2 - v * d = (r2 - r1 * c) + c * (r1 - v * 12) + v * (12 * c - d)" by (simp add: algebra_simps)
  then have "F \<le> \<bar>r2 - r1 * c\<bar> + \<bar>c * (r1 - v * 12)\<bar> + \<bar>v * (12 * c - d)\<bar>"
    unfolding F_def by linarith
  then have f5: "F \<le> E2 + c * E1 + A * (1 / 2 ^ 45)"
    using c0 by (simp add: E2_def E1_def A_def abs_mult cd)
  have f6: "E3 \<le> R2 / d / 2 ^ 53 + eta"
    using fl_error[OF w] d0 by (simp add: E3_def R2_def)
  have "r2 / d - v = (r2 - v * d) / d" using d0 by (simp add: diff_divide_distrib)
  then have f7: "\<bar>r2 / d - v\<bar> = F / d" using d0 by (simp only: F_def abs_divide abs_of_pos)
  have "\<bar>w - v\<bar> \<le> E3 + \<bar>r2 / d - v\<bar>" unfolding E3_def by linarith
  then have g: "\<bar>w - v\<bar> \<le> E3 + F / d" by (simp only: f7)
  have "E3 + F / d \<le> A * (8 / 2 ^ 53) + 8 * eta"
  proof -
    have F': "F / d \<le> (E2 + c * E1 + A * (1 / 2 ^ 45)) / d"
      using f5 d0 by (intro divide_right_mono) simp_all
    have R2': "R2 / d \<le> (c * R1 + E2) / d"
      using f3 d0 by (intro divide_right_mono) simp_all
    show ?thesis
      using F' R2' f1 f2 f4 f6 A0 eta_pos unfolding c_def d_def
      by (simp add: field_simps) 
  qed
  with g have "\<bar>w - v\<bar> \<le> A * (8 / 2 ^ 53) + 8 * eta" by linarith
  with w show ?thesis unfolding A_def c_def d_def by blast
qed

lemma jsmul_Fin_finite:
  assumes "jsmul a (Fin c) = Fin m"
  shows "\<exists>x. a = Fin x \<and> fl (x * c) = Fin m"
  using assms by (cases a) (auto simp: jsmul_def split: if_splits)

lemma roundtrip_one_factor:
  assumes "1 \<le> c" "jsmul (Fin v) (Fin c) = Fin m"
  shows "\<exists>w. jsdiv (Fin m) (Fin c) = Fin w \<and> \<bar>w - v\<bar> \<le> \<bar>v\<bar> * (8 / 2 ^ 53) + 8 * eta"
proof -
  have m: "fl (v * c) = Fin m" using assms(2) by (simp add: jsmul_def)
  from roundtrip_mul_div[OF assms(1) m] obtain w where
    w: "fl (m / c) = Fin w" "\<bar>w - v\<bar> \<le> \<bar>v\<bar> * (3 / 2 ^ 53) + 3 * eta" by blast
  have "\<bar>v\<bar> * (3 / 2 ^ 53) + 3 * eta \<le> \<bar>v\<bar> * (8 / 2 ^ 53) + 8 * eta"
    using eta_pos by (simp add: field_simps)
  with w(2) have "\<bar>w - v\<bar> \<le> \<bar>v\<bar> * (8 / 2 ^ 53) + 8 * eta" by linarith
  moreover have "jsdiv (Fin m) (Fin c) = Fin w" using assms(1) w(1) by (auto simp: jsdiv_def)
  ultimately show ?thesis by blast
qed

lemma roundtrip_units:
  assumes "u \<in> set (METRIC_UNITS @ IMPERIAL_UNITS)" "toMM u (Fin v) = Fin m"
  shows "\<exists>w. fromMM u (Fin m) = Fin w \<and> \<bar>w - v\<bar> \<le> \<bar>v\<bar> * (8 / 2 ^ 53) + 8 * eta"
proof -
  consider (mm) "toMM u = (\<lambda>v. v)" "fromMM u = (\<lambda>mm. mm)"
    | (cm) "toMM u = (\<lambda>v. jsmul v (Fin 10))" "fromMM u = (\<lambda>mm. jsdiv mm (Fin 10))"
    | (m) "toMM u = (\<lambda>v. jsmul v (Fin 1000))" "fromMM u = (\<lambda>mm. jsdiv mm (Fin 1000))"
    | (inch) "toMM u = (\<lambda>v. jsmul v lit_25_4)" "fromMM u = (\<lambda>mm. jsdiv mm lit_25_4)"
    | (ft) "toMM u = (\<lambda>v. jsmul (jsmul v (Fin 12)) lit_25_4)"
        "fromMM u = (\<lambda>mm. jsdiv mm (jsmul (Fin 12) lit_25_4))"
    using assms(1) by (auto simp: METRIC_UNITS_def IMPERIAL_UNITS_def)
  then show ?thesis
  proof cases
    case mm
    have "0 \<le> \<bar>v\<bar> * (8 / 2 ^ 53) + 8 * eta" using eta_pos by simp
    then show ?thesis using assms(2) by (simp add: mm)
  next
    case cm
    then show ?thesis using roundtrip_one_factor[of 10 v m] assms(2) by simp
  next
    case m
    then show ?thesis using roundtrip_one_factor[of 1000 v m] assms(2) by simp
  next
    case inch
    then show ?thesis
      using roundtrip_one_factor[of "3574732204225331 / 140737488355328" v m] assms(2)
      by (simp add: lit_25_4_value)
  next
    case ft
    from assms(2) have "jsmul (jsmul (Fin v) (Fin 12)) (Fin (3574732204225331 / 140737488355328)) = Fin m"
      by (simp add: ft lit_25_4_value)
    from jsmul_Fin_finite[OF this] obtain r1 where
      r1: "jsmul (Fin v) (Fin 12) = Fin r1" "fl (r1 * (3574732204225331 / 140737488355328)) = Fin m"
      by blast
    have "fl (v * 12) = Fin r1" using r1(1) by (simp add: jsmul_def)
    from roundtrip_feet[OF this r1(2)] show ?thesis
      by (simp add: ft twelve_lit_25_4_value jsdiv_def)
  qed
qed


section \<open>The fraction reducer: invariant, overflow to the whole part, non-finite input\<close>

lemma rounded_numerator_3_8:
  "Math_round (jsmul (jssub (Math_abs (Fin (3 / 8))) (Math_floor (Math_abs (Fin (3 / 8)))))
      (Fin 16)) = Fin 6"
proof -
  have a: "fl (3 / 8) = Fin (3 / 8)" using fl_dyadic_div[of 3 3] by simp
  show ?thesis
    by (simp add: Math_abs_def Math_floor_def jssub_def jsadd_def jsneg_def jsmul_def
        Math_round_def a)
qed

lemma rounded_numerator_2:
  "Math_round (jsmul (jssub (Math_abs (Fin 2)) (Math_floor (Math_abs (Fin 2)))) (Fin 16)) = Fin 0"
  by (simp add: Math_abs_def Math_floor_def jssub_def jsadd_def jsneg_def jsmul_def Math_round_def)

lemma rounded_numerator_63_32:
  "Math_round (jsmul (jssub (Math_abs (Fin (63 / 32))) (Math_floor (Math_abs (Fin (63 / 32)))))
      (Fin 16)) = Fin 16"
proof -
  have a: "fl (31 / 32) = Fin (31 / 32)" using fl_dyadic_div[of 31 5] by simp
  have b: "fl (31 / 2) = Fin (31 / 2)" using fl_dyadic_div[of 31 1] by simp
  show ?thesis
    by (simp add: Math_abs_def Math_floor_def jssub_def jsadd_def jsneg_def jsmul_def
        Math_round_def a b)
qed

text \<open>
  Claim C3, as amended.  Take a finite inch value and a requested denominator \<open>d\<close> that
  is a positive integer (and a JavaScript number, as every argument is).  Let \<open>r\<close> be
  the remainder of the magnitude in units of \<open>1/d\<close>, rounded: the \<open>num\<close> of the source
  before it is reduced, a natural number of at most \<open>d\<close>.  The reducer returns a natural
  numerator \<open>n\<close> and a natural denominator \<open>k\<close> with \<open>n < k\<close>, \<open>k\<close> a divisor of
  \<open>d\<close>, and \<open>n\<close> and \<open>k\<close> coprime whenever \<open>n\<close> is not zero.  When \<open>n\<close> is zero, \<open>k\<close>
  is the requested denominator if the remainder rounded up to a full unit (\<open>r = d\<close>),
  and 1 otherwise: the greatest common divisor of 0 and \<open>d\<close> is \<open>d\<close>, so the reduction
  divides the denominator by itself.  In full, \<open>n/k\<close> is \<open>0/d\<close> where \<open>r = d\<close>, and
  \<open>r/d\<close> divided through by the greatest common divisor of \<open>r\<close> and \<open>d\<close> where \<open>r < d\<close>.
\<close>

theorem inchesToFraction_lowest_terms:
  assumes d0: "0 < d" and d: "is_double (Fin (of_nat d))"
  shows "\<exists>r n k.
           Math_round (jsmul (jssub (Math_abs (Fin x)) (Math_floor (Math_abs (Fin x))))
             (Fin (of_nat d))) = Fin (of_nat r)
           \<and> r \<le> d
           \<and> num (inchesToFraction (Fin x) (Fin (of_nat d))) = Fin (of_nat n)
           \<and> denom (inchesToFraction (Fin x) (Fin (of_nat d))) = Fin (of_nat k)
           \<and> n < k \<and> k dvd d \<and> (n \<noteq> 0 \<longrightarrow> coprime n k)
           \<and> (n = 0 \<longrightarrow> k = (if r = d then d else 1))
           \<and> (r = d \<longrightarrow> n = 0 \<and> k = d)
           \<and> (r < d \<longrightarrow> n = r div gcd r d \<and> k = d div gcd r d)"
proof -
  have fd: "fl (of_nat d) = Fin (of_nat d)" using d by (simp add: is_double_def)
  define nm where "nm = Math_round (jsmul (jssub (Math_abs (Fin x)) (Math_floor (Math_abs (Fin x))))
            (Fin (of_nat d)))"
  obtain r where r: "nm = Fin (of_nat r)" "r \<le> d" "fl (of_nat r) = Fin (of_nat r)"
    using rounded_numerator[OF fd, of x] unfolding nm_def by blast
  have eq: "num (inchesToFraction (Fin x) (Fin (of_nat d))) =
              (if jseq nm (Fin (of_nat d)) then Fin 0
               else jsdiv nm (if truthy (g nm (Fin (of_nat d))) then g nm (Fin (of_nat d)) else Fin 1))"
           "denom (inchesToFraction (Fin x) (Fin (of_nat d))) =
              (if jseq nm (Fin (of_nat d)) then Fin (of_nat d)
               else jsdiv (Fin (of_nat d)) (if truthy (g nm (Fin (of_nat d))) then g nm (Fin (of_nat d)) else Fin 1))"
    by (simp_all add: inchesToFraction_Fin Let_def nm_def[symmetric])
  show ?thesis
  proof (cases "r = d")
    case True
    then have "jseq nm (Fin (of_nat d))" by (simp add: r(1) jseq_def)
    then have "num (inchesToFraction (Fin x) (Fin (of_nat d))) = Fin (of_nat 0)"
      "denom (inchesToFraction (Fin x) (Fin (of_nat d))) = Fin (of_nat d)"
      by (simp_all only: eq if_True of_nat_0)
    then show ?thesis using d0 True r(1)[unfolded nm_def]
      by (intro exI[of _ d] exI[of _ 0]) simp
  next
    case False
    with r(2) have lt: "r < d" by simp
    define c where "c = gcd r d"
    have c0: "0 < c" using d0 by (simp add: c_def)
    have cn: "c dvd r" and cd: "c dvd d" by (simp_all add: c_def)
    have gg: "g nm (Fin (of_nat d)) = Fin (of_nat c)" by (simp only: r(1) g_nat c_def)
    have tr: "truthy (Fin (of_nat c))" using c0 by simp
    obtain a b where ab: "r = a * c" "d = b * c" using cn cd by (auto simp: dvd_def mult.commute)
    have dd: "fl (of_nat (d div c)) = Fin (of_nat (d div c))"
      using fd d0 by (rule divisor_representable) (use c0 in \<open>simp add: ab\<close>)
    have nd: "fl (of_nat (r div c)) = Fin (of_nat (r div c))"
    proof (cases "r = 0")
      case True
      then show ?thesis using c0 by simp
    next
      case False
      then have "0 < r" by simp
      with r(3) show ?thesis by (rule divisor_representable) (use c0 in \<open>simp add: ab\<close>)
    qed
    have N: "jsdiv nm (Fin (of_nat c)) = Fin (of_nat (r div c))"
      unfolding r(1) by (rule jsdiv_nat_exact[OF cn c0 nd])
    have D: "jsdiv (Fin (of_nat d)) (Fin (of_nat c)) = Fin (of_nat (d div c))"
      by (rule jsdiv_nat_exact[OF cd c0 dd])
    have ne: "\<not> jseq nm (Fin (of_nat d))" using False by (simp add: r(1) jseq_def)
    have res: "num (inchesToFraction (Fin x) (Fin (of_nat d))) = Fin (of_nat (r div c))"
      "denom (inchesToFraction (Fin x) (Fin (of_nat d))) = Fin (of_nat (d div c))"
      by (simp_all only: eq ne if_False gg tr if_True N D)
    have lt': "r div c < d div c" using lt c0 by (simp add: ab)
    have dv: "d div c dvd d" using c0 by (simp add: ab)
    have cop: "coprime (r div c) (d div c)" unfolding c_def using d0 by (intro div_gcd_coprime) simp
    have z: "r div c = 0 \<longrightarrow> d div c = 1"
    proof
      assume "r div c = 0"
      with c0 have "r = 0" by (simp add: ab)
      then have "c = d" by (simp add: c_def)
      with d0 show "d div c = 1" by simp
    qed
    show ?thesis using res lt' dv cop z False lt r(1)[unfolded nm_def]
      by (intro exI[of _ r] exI[of _ "r div c"] exI[of _ "d div c"]) (simp add: c_def)
  qed
qed

theorem inchesToFraction_lowest_terms_witness:
  "(0::nat) < 16 \<and> is_double (Fin (of_nat 16))
   \<and> num (inchesToFraction (Fin (3 / 8)) (Fin (of_nat 16))) = Fin 3
   \<and> denom (inchesToFraction (Fin (3 / 8)) (Fin (of_nat 16))) = Fin 8
   \<and> num (inchesToFraction (Fin 2) (Fin (of_nat 16))) = Fin 0
   \<and> denom (inchesToFraction (Fin 2) (Fin (of_nat 16))) = Fin 1
   \<and> num (inchesToFraction (Fin (63 / 32)) (Fin (of_nat 16))) = Fin 0
   \<and> denom (inchesToFraction (Fin (63 / 32)) (Fin (of_nat 16))) = Fin 16"
proof -
  have h: "(0::nat) < 16" "is_double (Fin (of_nat 16))" by (simp_all add: is_double_def)
  have g6: "gcd (6::nat) 16 = 2" by (simp add: gcd_non_0_nat)
  have A: "num (inchesToFraction (Fin (3 / 8)) (Fin (of_nat 16))) = Fin 3
           \<and> denom (inchesToFraction (Fin (3 / 8)) (Fin (of_nat 16))) = Fin 8"
  proof -
    from inchesToFraction_lowest_terms[OF h, of "3 / 8"] obtain r n k where
      r: "Fin 6 = Fin (of_nat r)"
      and nk: "num (inchesToFraction (Fin (3 / 8)) (Fin (of_nat 16))) = Fin (of_nat n)"
        "denom (inchesToFraction (Fin (3 / 8)) (Fin (of_nat 16))) = Fin (of_nat k)"
      and lt: "r < 16 \<longrightarrow> n = r div gcd r 16 \<and> k = 16 div gcd r 16"
      unfolding of_nat_numeral rounded_numerator_3_8 by blast
    from r have "(of_nat r :: rat) = of_nat 6" by simp
    then have "r = 6" by (simp only: of_nat_eq_iff)
    with lt have "n = 3" "k = 8" by (simp_all add: g6)
    with nk show ?thesis by simp
  qed
  have B: "num (inchesToFraction (Fin 2) (Fin (of_nat 16))) = Fin 0
           \<and> denom (inchesToFraction (Fin 2) (Fin (of_nat 16))) = Fin 1"
  proof -
    from inchesToFraction_lowest_terms[OF h, of 2] obtain r n k where
      r: "Fin 0 = Fin (of_nat r)"
      and nk: "num (inchesToFraction (Fin 2) (Fin (of_nat 16))) = Fin (of_nat n)"
        "denom (inchesToFraction (Fin 2) (Fin (of_nat 16))) = Fin (of_nat k)"
      and lt: "r < 16 \<longrightarrow> n = r div gcd r 16 \<and> k = 16 div gcd r 16"
      unfolding of_nat_numeral rounded_numerator_2 by blast
    from r have "r = 0" by simp
    with lt have "n = 0" "k = 1" by simp_all
    with nk show ?thesis by simp
  qed
  have C: "num (inchesToFraction (Fin (63 / 32)) (Fin (of_nat 16))) = Fin 0
           \<and> denom (inchesToFraction (Fin (63 / 32)) (Fin (of_nat 16))) = Fin 16"
  proof -
    from inchesToFraction_lowest_terms[OF h, of "63 / 32"] obtain r n k where
      r: "Fin 16 = Fin (of_nat r)"
      and nk: "num (inchesToFraction (Fin (63 / 32)) (Fin (of_nat 16))) = Fin (of_nat n)"
        "denom (inchesToFraction (Fin (63 / 32)) (Fin (of_nat 16))) = Fin (of_nat k)"
      and eq: "r = 16 \<longrightarrow> n = 0 \<and> k = 16"
      unfolding of_nat_numeral rounded_numerator_63_32 by blast
    from r have "(of_nat r :: rat) = of_nat 16" by simp
    then have "r = 16" by (simp only: of_nat_eq_iff)
    with eq have "n = 0" "k = 16" by simp_all
    with nk show ?thesis by simp
  qed
  from h A B C show ?thesis by blast
qed

text \<open>
  Claim C3 as the specification states it fails: two inches at sixteenths have the
  numerator 0 and the denominator 1, not the requested 16.
\<close>

theorem inchesToFraction_zero_numerator_counterexample:
  "num (inchesToFraction (Fin 2) (Fin 16)) = Fin 0
   \<and> denom (inchesToFraction (Fin 2) (Fin 16)) = Fin 1
   \<and> denom (inchesToFraction (Fin 2) (Fin 16)) \<noteq> Fin 16"
proof -
  have g: "g (Fin 0) (Fin 16) = Fin 16" using g_nat[of 0 16] by simp
  show ?thesis
    by (simp add: inchesToFraction_Fin Let_def Math_abs_def Math_floor_def jssub_def jsadd_def
        jsneg_def jsmul_def Math_round_def jseq_def jsdiv_def g)
qed

lemma inchesToFraction_overflow_example:
  "inchesToFraction (Fin (63 / 32)) (Fin 16) = \<lparr>sign = [], whole = Fin 2, num = Fin 0, denom = Fin 16\<rparr>"
proof -
  have a: "fl (31 / 32) = Fin (31 / 32)" using fl_dyadic_div[of 31 5] by simp
  have b: "fl (31 / 2) = Fin (31 / 2)" using fl_dyadic_div[of 31 1] by simp
  show ?thesis
    by (simp add: inchesToFraction_Fin Let_def Math_abs_def Math_floor_def jssub_def jsadd_def
        jsneg_def jsmul_def Math_round_def jseq_def a b)
qed

lemma overflow_example_numerator:
  "jseq (Math_round (jsmul (jssub (Math_abs (Fin (63 / 32))) (Math_floor (Math_abs (Fin (63 / 32)))))
      (Fin 16))) (Fin 16)"
proof -
  have a: "fl (31 / 32) = Fin (31 / 32)" using fl_dyadic_div[of 31 5] by simp
  have b: "fl (31 / 2) = Fin (31 / 2)" using fl_dyadic_div[of 31 1] by simp
  show ?thesis
    by (simp add: Math_abs_def Math_floor_def jssub_def jsadd_def jsneg_def jsmul_def
        Math_round_def jseq_def a b)
qed

text \<open>
  Claim C4.  For a finite inch value, when the remainder times the denominator rounds to
  the denominator itself, the whole part is one more than the integer part of the
  magnitude, the numerator is 0 and the denominator is the requested one; and
  \<open>inchesToFraction(1.96875, 16)\<close> is \<open>{whole: 2, num: 0, denom: 16}\<close>.
\<close>

theorem inchesToFraction_overflow_to_whole:
  "(isFinite inches \<and>
      jseq (Math_round (jsmul (jssub (Math_abs inches) (Math_floor (Math_abs inches))) dn)) dn
    \<longrightarrow> whole (inchesToFraction inches dn) = jsadd (Math_floor (Math_abs inches)) (Fin 1)
      \<and> num (inchesToFraction inches dn) = Fin 0
      \<and> denom (inchesToFraction inches dn) = dn)
   \<and> inchesToFraction (Fin (63 / 32)) (Fin 16)
       = \<lparr>sign = [], whole = Fin 2, num = Fin 0, denom = Fin 16\<rparr>"
  by (simp add: inchesToFraction_overflow_example) (simp add: inchesToFraction_def Let_def)

theorem inchesToFraction_overflow_to_whole_witness:
  "isFinite (Fin (63 / 32))
   \<and> jseq (Math_round (jsmul (jssub (Math_abs (Fin (63 / 32))) (Math_floor (Math_abs (Fin (63 / 32)))))
        (Fin 16))) (Fin 16)
   \<and> whole (inchesToFraction (Fin (63 / 32)) (Fin 16))
       = jsadd (Math_floor (Math_abs (Fin (63 / 32)))) (Fin 1)
   \<and> num (inchesToFraction (Fin (63 / 32)) (Fin 16)) = Fin 0
   \<and> denom (inchesToFraction (Fin (63 / 32)) (Fin 16)) = Fin 16"
proof -
  have "isFinite (Fin (63 / 32))" by simp
  with inchesToFraction_overflow_to_whole[of "Fin (63 / 32)" "Fin 16"] overflow_example_numerator
  show ?thesis by blast
qed

lemma inchesToFraction_zero:
  assumes "0 < d"
  shows "inchesToFraction (Fin 0) (Fin (of_nat d))
           = \<lparr>sign = [], whole = Fin 0, num = Fin 0, denom = Fin 1\<rparr>"
proof -
  have g: "g (Fin 0) (Fin (of_nat d)) = Fin (of_nat d)" using g_nat[of 0 d] by simp
  show ?thesis using assms
    by (simp add: inchesToFraction_Fin Let_def Math_abs_def Math_floor_def jssub_def jsadd_def
        jsneg_def jsmul_def Math_round_def jseq_def jsdiv_def g)
qed

lemma toMM_zero: "toMM (activeUnit st) (Fin 0) = Fin 0"
  by (auto simp: activeUnit_def unitList_def METRIC_UNITS_def IMPERIAL_UNITS_def jsmul_def
      lit_25_4_value split: option.splits if_splits)

lemma inches_of_zero: "jsdiv (Fin 0) lit_25_4 = Fin 0"
  by (simp add: lit_25_4_value jsdiv_def)

lemma round_js_zero:
  assumes "valid_precision dp"
  shows "round_js (Fin 0) dp = Inr (Fin 0)"
  using assms
  by (auto simp: round_js_def toFixed_def valid_precision_def Number_numstr_def split: jsnum.splits)

lemma imperialOut_zero:
  assumes "0 < d" "valid_precision dp"
  shows "imperialOut (Fin 0) dp (Fin (of_nat d))
     = Inr \<lparr>out_in = Fin 0, out_ft = Fin 0,
            out_frac = \<lparr>sign = [], whole = Fin 0, num = Fin 0, denom = Fin 1\<rparr>\<rparr>"
proof -
  have "jsdiv (Fin 0) (Fin 12) = Fin 0" by (simp add: jsdiv_def)
  then show ?thesis
    by (simp add: imperialOut_def Let_def inches_of_zero round_js_zero[OF assms(2)]
        inchesToFraction_zero[OF assms(1)])
qed

lemma imperialOut_NaN:
  "imperialOut NaN dp dn
     = Inr \<lparr>out_in = Fin 0, out_ft = Fin 0,
            out_frac = \<lparr>sign = [], whole = Fin 0, num = Fin 0, denom = dn\<rparr>\<rparr>"
proof -
  have "jsdiv NaN lit_25_4 = NaN" by (simp add: jsdiv_def lit_25_4_value)
  moreover have "jsdiv NaN (Fin 12) = NaN" by (simp add: jsdiv_def)
  ultimately show ?thesis
    by (simp add: imperialOut_def Let_def round_js_not_finite inchesToFraction_def)
qed

lemma ScaleConverter_not_finite_input:
  assumes "\<not> isFinite (Number (filter (\<lambda>c. c \<noteq> CHR '','') (inputValue st)))"
  shows "ScaleConverter_mmScaled st = (if scaleN st = NaN then NaN else Fin 0)"
proof (cases "scaleN st = NaN")
  case True
  then show ?thesis using assms
    by (simp add: ScaleConverter_mmScaled_def Let_def toMM_zero jsdiv_def)
next
  case False
  from clamp_range[OF this, of 1 72] obtain c where
    c: "clamp (scaleN st) (Fin 1) (Fin 72) = Fin c" "1 \<le> c" by auto
  then have "c \<noteq> 0" by linarith
  then show ?thesis using assms False
    by (simp add: ScaleConverter_mmScaled_def Let_def toMM_zero c(1) jsdiv_def)
qed

lemma literal_abc: "StringNumericLiteral ''abc'' = None"
  by (simp add: StringNumericLiteral_def trim_def StrWhiteSpaceChar_def NonDecimalIntegerLiteral_def
      StrDecimalLiteral_def StrUnsignedDecimalLiteral_def Let_def decimal_digit_def pow10_def)

text \<open>
  Claim C5.  The reducer has no operation that raises, and its recursion ends on all
  arguments.  For every inch value that is not finite it returns the zero fraction with
  an empty sign and the requested denominator.  The other degenerate input is the
  value 0, which is also what a text field that holds no number comes to: at every
  positive integer denominator it gives the zero fraction, and so does the fraction of
  the imperial output of both converters when the text does not parse to a finite
  number.  The denominator is the 16 of \<open>useState\<close>, or one of 2, 4, 8, 16, 32 and 64
  from the selector; the reducer itself does not check it.
\<close>

theorem inchesToFraction_invalid_input:
  "(\<not> isFinite inches \<longrightarrow>
      inchesToFraction inches dn = \<lparr>sign = [], whole = Fin 0, num = Fin 0, denom = dn\<rparr>)
   \<and> (0 < d \<longrightarrow>
        inchesToFraction (Fin 0) (Fin (of_nat d))
          = \<lparr>sign = [], whole = Fin 0, num = Fin 0, denom = Fin 1\<rparr>)
   \<and> (0 < d \<and> inchDenom st = Fin (of_nat d) \<and> valid_precision (decimals st) \<longrightarrow>
       (\<not> isFinite (Number (inputValue st)) \<longrightarrow>
          imperialOut (MeasurementConverter_mmScaled st) (decimals st) (inchDenom st)
            = Inr \<lparr>out_in = Fin 0, out_ft = Fin 0,
                   out_frac = \<lparr>sign = [], whole = Fin 0, num = Fin 0, denom = Fin 1\<rparr>\<rparr>)
       \<and> (\<not> isFinite (Number (filter (\<lambda>c. c \<noteq> CHR '','') (inputValue st))) \<longrightarrow>
          imperialOut (ScaleConverter_mmScaled st) (decimals st) (inchDenom st)
            = Inr \<lparr>out_in = Fin 0, out_ft = Fin 0,
                   out_frac = \<lparr>sign = [], whole = Fin 0, num = Fin 0,
                     denom = (if scaleN st = NaN then inchDenom st else Fin 1)\<rparr>\<rparr>))"
proof -
  have A: "inchesToFraction inches dn = \<lparr>sign = [], whole = Fin 0, num = Fin 0, denom = dn\<rparr>"
    if "\<not> isFinite inches"
    using that by (simp add: inchesToFraction_def)
  have M: "imperialOut (MeasurementConverter_mmScaled st) (decimals st) (inchDenom st)
            = Inr \<lparr>out_in = Fin 0, out_ft = Fin 0,
                   out_frac = \<lparr>sign = [], whole = Fin 0, num = Fin 0, denom = Fin 1\<rparr>\<rparr>"
    if "0 < d" "inchDenom st = Fin (of_nat d)" "valid_precision (decimals st)"
      "\<not> isFinite (Number (inputValue st))"
  proof -
    have "MeasurementConverter_mmScaled st = Fin 0"
      using that(4) by (simp add: MeasurementConverter_mmScaled_def Let_def)
    then show ?thesis by (simp only: that(2) imperialOut_zero[OF that(1,3)])
  qed
  have S: "imperialOut (ScaleConverter_mmScaled st) (decimals st) (inchDenom st)
            = Inr \<lparr>out_in = Fin 0, out_ft = Fin 0,
                   out_frac = \<lparr>sign = [], whole = Fin 0, num = Fin 0,
                     denom = (if scaleN st = NaN then inchDenom st else Fin 1)\<rparr>\<rparr>"
    if "0 < d" "inchDenom st = Fin (of_nat d)" "valid_precision (decimals st)"
      "\<not> isFinite (Number (filter (\<lambda>c. c \<noteq> CHR '','') (inputValue st)))"
  proof (cases "scaleN st = NaN")
    case True
    then show ?thesis
      by (simp add: ScaleConverter_not_finite_input[OF that(4)] imperialOut_NaN)
  next
    case False
    then show ?thesis
      by (simp add: ScaleConverter_not_finite_input[OF that(4)] that(2)
          imperialOut_zero[OF that(1,3)])
  qed
  show ?thesis using A M S inchesToFraction_zero by blast
qed

theorem inchesToFraction_invalid_input_witness:
  "\<not> isFinite PInf
   \<and> inchesToFraction PInf (Fin 16) = \<lparr>sign = [], whole = Fin 0, num = Fin 0, denom = Fin 16\<rparr>
   \<and> (0::nat) < 16
   \<and> inchesToFraction (Fin 0) (Fin (of_nat 16))
        = \<lparr>sign = [], whole = Fin 0, num = Fin 0, denom = Fin 1\<rparr>
   \<and> inchDenom (initial_state\<lparr>inputValue := ''abc''\<rparr>) = Fin (of_nat 16)
   \<and> valid_precision (decimals (initial_state\<lparr>inputValue := ''abc''\<rparr>))
   \<and> \<not> isFinite (Number (inputValue (initial_state\<lparr>inputValue := ''abc''\<rparr>)))
   \<and> \<not> isFinite (Number (filter (\<lambda>c. c \<noteq> CHR '','')
           (inputValue (initial_state\<lparr>inputValue := ''abc''\<rparr>))))
   \<and> imperialOut (MeasurementConverter_mmScaled (initial_state\<lparr>inputValue := ''abc''\<rparr>))
         (decimals (initial_state\<lparr>inputValue := ''abc''\<rparr>))
         (inchDenom (initial_state\<lparr>inputValue := ''abc''\<rparr>))
       = Inr \<lparr>out_in = Fin 0, out_ft = Fin 0,
              out_frac = \<lparr>sign = [], whole = Fin 0, num = Fin 0, denom = Fin 1\<rparr>\<rparr>
   \<and> imperialOut (ScaleConverter_mmScaled (initial_state\<lparr>inputValue := ''abc''\<rparr>))
         (decimals (initial_state\<lparr>inputValue := ''abc''\<rparr>))
         (inchDenom (initial_state\<lparr>inputValue := ''abc''\<rparr>))
       = Inr \<lparr>out_in = Fin 0, out_ft = Fin 0,
              out_frac = \<lparr>sign = [], whole = Fin 0, num = Fin 0, denom = Fin 1\<rparr>\<rparr>"
proof -
  let ?st = "initial_state\<lparr>inputValue := ''abc''\<rparr>"
  have n: "Number ''abc'' = NaN" by (simp add: Number_def literal_abc)
  have h: "\<not> isFinite PInf" "(0::nat) < 16" "inchDenom ?st = Fin (of_nat 16)"
    "valid_precision (decimals ?st)" "\<not> isFinite (Number (inputValue ?st))"
    "\<not> isFinite (Number (filter (\<lambda>c. c \<noteq> CHR '','') (inputValue ?st)))"
    by (simp_all add: n)
  have s: "scaleN ?st \<noteq> NaN" by simp
  from inchesToFraction_invalid_input[of PInf "Fin 16" 16 ?st] h s show ?thesis
    by simp
qed


section \<open>The scale-to-scale converter: guard and percentage\<close>

text \<open>
  Claim C7.  When either scale is falsy (zero or \<open>NaN\<close>) the percentage is the number 0:
  nothing is divided and no error is raised.  In particular this holds for the scales
  \<open>(0, 18)\<close> and \<open>(14, 0)\<close>.
\<close>

theorem percent_guarded_division:
  "(\<not> truthy fromScale \<or> \<not> truthy toScale \<longrightarrow> percent fromScale toScale = Inr (NumberValue (Fin 0)))
   \<and> percent (Fin 0) (Fin 18) = Inr (NumberValue (Fin 0))
   \<and> percent (Fin 14) (Fin 0) = Inr (NumberValue (Fin 0))"
  by (simp add: percent_def)

theorem percent_guarded_division_witness:
  "\<not> truthy NaN \<and> percent NaN (Fin 18) = Inr (NumberValue (Fin 0))"
  using percent_guarded_division[of NaN "Fin 18"] by simp

text \<open>
  Claim C6.  For positive scales the percentage is a string, and the number it denotes
  is \<open>(fromScale / toScale) * 100\<close> rounded to 2 decimal places; as long as that
  product is below \<open>10\<^sup>2\<^sup>1\<close> the string is the fixed-point numeral with exactly two
  decimals.  Equal scales give \<open>100.00\<close>, and the scales 14 and 18 give \<open>77.78\<close>.
\<close>

theorem percent_two_decimals:
  "(0 < a \<and> 0 < b \<longrightarrow>
      (\<exists>s. percent (Fin a) (Fin b) = Inr (StringValue s)
         \<and> Number_numstr s = spec_round 2 (jsmul (jsdiv (Fin a) (Fin b)) (Fin 100))
         \<and> (\<forall>q. jsmul (jsdiv (Fin a) (Fin b)) (Fin 100) = Fin q \<and> q < 10 ^ 21
               \<longrightarrow> s = Decimal False (nat \<lfloor>q * 100 + 1 / 2\<rfloor>) 2)))
   \<and> (0 < n \<longrightarrow> percent (Fin n) (Fin n) = Inr (StringValue (Decimal False 10000 2)))
   \<and> render (Decimal False 10000 2) = Some ''100.00''
   \<and> percent (Fin 14) (Fin 18) = Inr (StringValue (Decimal False 7778 2))
   \<and> render (Decimal False 7778 2) = Some ''77.78''"
proof -
  have "\<exists>s. percent (Fin a) (Fin b) = Inr (StringValue s)
         \<and> Number_numstr s = spec_round 2 (jsmul (jsdiv (Fin a) (Fin b)) (Fin 100))
         \<and> (\<forall>q. jsmul (jsdiv (Fin a) (Fin b)) (Fin 100) = Fin q \<and> q < 10 ^ 21
               \<longrightarrow> s = Decimal False (nat \<lfloor>q * 100 + 1 / 2\<rfloor>) 2)"
    if ab: "0 < a" "0 < b"
  proof -
    have p: "percent (Fin a) (Fin b)
        = map_sum id StringValue (toFixed (jsmul (jsdiv (Fin a) (Fin b)) (Fin 100)) (Fin 2))"
      using ab by (simp add: percent_def)
    from percentage_cases[OF ab] show ?thesis
    proof
      assume inf: "jsmul (jsdiv (Fin a) (Fin b)) (Fin 100) = PInf"
      show ?thesis
        by (simp add: p inf toFixed_def Number_numstr_def spec_round_def)
    next
      assume "\<exists>q. jsmul (jsdiv (Fin a) (Fin b)) (Fin 100) = Fin q \<and> 0 \<le> q \<and> fl q = Fin q"
      then obtain q where q: "jsmul (jsdiv (Fin a) (Fin b)) (Fin 100) = Fin q" "0 \<le> q" "fl q = Fin q"
        by blast
      from toFixed2_nonneg[OF q(2,3)] obtain s where s: "toFixed (Fin q) (Fin 2) = Inr s"
        "Number_numstr s = spec_round 2 (Fin q)"
        "q < 10 ^ 21 \<longrightarrow> s = Decimal False (nat \<lfloor>q * 100 + 1 / 2\<rfloor>) 2" by blast
      show ?thesis by (rule exI[of _ s]) (simp add: p q(1) s)
    qed
  qed
  moreover have "percent (Fin n) (Fin n) = Inr (StringValue (Decimal False 10000 2))" if "0 < n"
    using that by (intro percent_same_scale) simp
  ultimately show ?thesis using percent_14_18 render_examples by blast
qed

theorem percent_two_decimals_witness:
  "(0::rat) < 14 \<and> (0::rat) < 18 \<and> (0::rat) < 5
   \<and> (\<exists>s. percent (Fin 14) (Fin 18) = Inr (StringValue s)
         \<and> Number_numstr s = spec_round 2 (jsmul (jsdiv (Fin 14) (Fin 18)) (Fin 100)))
   \<and> percent (Fin 5) (Fin 5) = Inr (StringValue (Decimal False 10000 2))"
  using percent_two_decimals[of 14 18 5] by auto


section \<open>The rounding helper and the outputs of the measurement converter\<close>

text \<open>
  Claim C10.  For every value that is not finite and every precision, \<open>round\<close> returns
  0.  With a precision the component can hold (the initial 3, or what the decimals field
  stores), the fields \<open>mm\<close>, \<open>cm\<close>, \<open>m\<close>, \<open>in\<close> and \<open>ft\<close> are finite numbers for
  every scaled millimetre value.  The input \<open>1e308\<close> in metres overflows to
  \<open>Infinity\<close> millimetres, and every field is then 0.
\<close>

theorem rounded_outputs_finite:
  "(\<not> isFinite v \<longrightarrow> round_js v dp = Inr (Fin 0))
   \<and> (dp = Fin 3 \<or> dp = setDecimals s \<longrightarrow>
        (\<exists>a b c. metricOut x dp = Inr \<lparr>out_mm = Fin a, out_cm = Fin b, out_m = Fin c\<rparr>)
      \<and> (\<exists>a b. imperialOut x dp dn = Inr \<lparr>out_in = Fin a, out_ft = Fin b,
                  out_frac = inchesToFraction (jsdiv x lit_25_4) dn\<rparr>))
   \<and> ScaleConverter_mmScaled (initial_state\<lparr>inputValue := ''1e308'', metricUnit := ''m''\<rparr>) = PInf
   \<and> metricOut PInf (Fin 3) = Inr \<lparr>out_mm = Fin 0, out_cm = Fin 0, out_m = Fin 0\<rparr>
   \<and> imperialOut PInf (Fin 3) (Fin 16) = Inr \<lparr>out_in = Fin 0, out_ft = Fin 0,
        out_frac = \<lparr>sign = [], whole = Fin 0, num = Fin 0, denom = Fin 16\<rparr>\<rparr>"
proof -
  have "valid_precision dp" if "dp = Fin 3 \<or> dp = setDecimals s"
    using that valid_precision_setDecimals by auto
  then show ?thesis
    using round_js_not_finite metricOut_finite imperialOut_finite overflow_example outputs_at_overflow
    by blast
qed

theorem rounded_outputs_finite_witness:
  "\<not> isFinite NInf \<and> round_js NInf (Fin 7) = Inr (Fin 0)
   \<and> (\<exists>a b c. metricOut NInf (Fin 3) = Inr \<lparr>out_mm = Fin a, out_cm = Fin b, out_m = Fin c\<rparr>)"
  using rounded_outputs_finite[of NInf "Fin 7"] rounded_outputs_finite[of NInf "Fin 3" "[]" NInf]
  by simp


section \<open>The measurement converter: scaling, parsing\<close>

text \<open>
  Claim C1.  With the unit \<open>mm\<close>, a text field that holds a finite value \<open>v \<ge> 0\<close>
  (and no comma) and a scale \<open>n\<close> between 1 and 72, the field \<open>mm\<close> of the metric
  output is \<open>round(v / n, decimals)\<close>, in \<open>MeasurementConverter\<close> and in
  \<open>ScaleConverter\<close> alike; and for a precision \<open>k\<close> of at most 100 digits, \<open>round\<close>
  is the rounding of the quotient to \<open>k\<close> decimal places, a half going up.
\<close>

theorem linear_converter_mm:
  assumes "system st = ''metric''" and "metricUnit st = ''mm''"
    and "CHR '','' \<notin> set (inputValue st)" and "Number (inputValue st) = Fin v" and "0 \<le> v"
    and "scaleN st = Fin (of_int n)" and "1 \<le> n" and "n \<le> 72"
  shows "map_sum id out_mm (metricOut (MeasurementConverter_mmScaled st) (decimals st))
           = round_js (jsdiv (Fin v) (Fin (of_int n))) (decimals st)
       \<and> map_sum id out_mm (metricOut (ScaleConverter_mmScaled st) (decimals st))
           = round_js (jsdiv (Fin v) (Fin (of_int n))) (decimals st)
       \<and> (\<forall>k. k \<le> 100 \<and> decimals st = Fin (of_nat k) \<longrightarrow>
             round_js (jsdiv (Fin v) (Fin (of_int n))) (decimals st)
               = Inr (spec_round k (jsdiv (Fin v) (Fin (of_int n)))))"
proof -
  have n1: "(1::rat) \<le> of_int n" using assms(7) by simp
  have n72: "(of_int n :: rat) \<le> 72" using assms(8) by (metis of_int_le_iff of_int_numeral)
  have dv: "fl v = Fin v" using assms(4) by (rule Number_fl)
  obtain q where q: "jsdiv (Fin v) (Fin (of_int n)) = Fin q" "0 \<le> q" "fl q = Fin q"
    using jsdiv_le_dividend[OF assms(5) dv n1] by blast
  have f: "filter (\<lambda>c. c \<noteq> CHR '','') (inputValue st) = inputValue st"
    using assms(3) by (auto simp: filter_id_conv)
  have M: "MeasurementConverter_mmScaled st = Fin q"
    by (simp add: MeasurementConverter_mmScaled_def Let_def assms(4,6) activeUnit_mm[OF assms(1,2)] q(1))
  have S: "ScaleConverter_mmScaled st = Fin q"
    by (simp add: ScaleConverter_mmScaled_def Let_def f assms(4,6) activeUnit_mm[OF assms(1,2)]
        clamp_in_range[OF n1 n72] q(1))
  show ?thesis
    by (simp add: M S q(1) metricOut_mm) (metis round_js_spec[OF q(2,3)])
qed

theorem linear_converter_mm_witness:
  "system initial_state = ''metric'' \<and> metricUnit initial_state = ''mm''
   \<and> CHR '','' \<notin> set (inputValue initial_state) \<and> Number (inputValue initial_state) = Fin 100
   \<and> (0::rat) \<le> 100 \<and> scaleN initial_state = Fin (of_int 10) \<and> (1::int) \<le> 10 \<and> (10::int) \<le> 72
   \<and> map_sum id out_mm (metricOut (MeasurementConverter_mmScaled initial_state) (decimals initial_state))
        = round_js (jsdiv (Fin 100) (Fin (of_int 10))) (decimals initial_state)
   \<and> map_sum id out_mm (metricOut (ScaleConverter_mmScaled initial_state) (decimals initial_state))
        = round_js (jsdiv (Fin 100) (Fin (of_int 10))) (decimals initial_state)
   \<and> round_js (jsdiv (Fin 100) (Fin (of_int 10))) (decimals initial_state) = Inr (Fin 10)"
proof -
  have h: "system initial_state = ''metric''" "metricUnit initial_state = ''mm''"
    "CHR '','' \<notin> set (inputValue initial_state)" "Number (inputValue initial_state) = Fin 100"
    "(0::rat) \<le> 100" "scaleN initial_state = Fin (of_int 10)" "(1::int) \<le> 10" "(10::int) \<le> 72"
    by (simp_all add: initial_state_def Number_100)
  have r: "round_js (jsdiv (Fin 100) (Fin (of_int 10))) (decimals initial_state) = Inr (Fin 10)"
    by (simp add: initial_state_def jsdiv_def round_js_def toFixed_def ToIntegerOrInfinity_def
        trunc_def Number_numstr_def)
  from linear_converter_mm[OF h] h r show ?thesis by blast
qed

text \<open>
  Claim C2.  Take a text field that holds a finite value (and no comma), whose
  millimetre value is \<open>m\<close>, and a scale \<open>x\<close>.  \<open>ScaleConverter\<close> returns the quotient of
  \<open>m\<close> by the scale clamped to the range from 1 to 72, rounded to a binary64 value; the
  scale is a divisor, so the result is never larger in magnitude than \<open>m\<close>; a millimetre
  value that has overflowed stays as it is.  \<open>MeasurementConverter\<close> has no call of
  \<open>clamp\<close>: its scale comes from a selector over \<open>ALL_SCALES\<close>, the numbers from 1 to
  72, where the clamp changes nothing and both converters return the same value.  At the
  scale 1 both return the millimetre value unchanged.
\<close>

theorem scale_is_a_divisor:
  assumes "CHR '','' \<notin> set (inputValue st)" and "Number (inputValue st) = Fin v"
    and "scaleN st = Fin x"
  shows "(\<forall>m. toMM (activeUnit st) (Fin v) = Fin m \<longrightarrow>
            ScaleConverter_mmScaled st = fl (m / min (max x 1) 72)
            \<and> (\<exists>r. ScaleConverter_mmScaled st = Fin r \<and> \<bar>r\<bar> \<le> \<bar>m\<bar>))
       \<and> (\<not> isFinite (toMM (activeUnit st) (Fin v)) \<longrightarrow>
            ScaleConverter_mmScaled st = toMM (activeUnit st) (Fin v))
       \<and> (Fin x \<in> set ALL_SCALES \<longrightarrow>
            min (max x 1) 72 = x
            \<and> MeasurementConverter_mmScaled st = ScaleConverter_mmScaled st)
       \<and> (x = 1 \<longrightarrow> ScaleConverter_mmScaled st = toMM (activeUnit st) (Fin v)
                  \<and> MeasurementConverter_mmScaled st = toMM (activeUnit st) (Fin v))"
proof -
  define c where "c = min (max x 1) 72"
  have c1: "1 \<le> c" and c0: "0 < c" and cn: "c \<noteq> 0" by (simp_all add: c_def)
  have f: "filter (\<lambda>c. c \<noteq> CHR '','') (inputValue st) = inputValue st"
    using assms(1) by (auto simp: filter_id_conv)
  have S: "ScaleConverter_mmScaled st = jsdiv (toMM (activeUnit st) (Fin v)) (Fin c)"
    by (simp add: ScaleConverter_mmScaled_def Let_def f assms(2,3) clamp_Fin c_def)
  have M: "MeasurementConverter_mmScaled st = jsdiv (toMM (activeUnit st) (Fin v)) (Fin x)"
    by (simp add: MeasurementConverter_mmScaled_def Let_def assms(2,3))
  have dm: "is_double (toMM (activeUnit st) (Fin v))"
    by (rule is_double_toMM) (simp add: is_double_def Number_fl[OF assms(2)])
  have A: "ScaleConverter_mmScaled st = fl (m / c) \<and> (\<exists>r. ScaleConverter_mmScaled st = Fin r \<and> \<bar>r\<bar> \<le> \<bar>m\<bar>)"
    if m: "toMM (activeUnit st) (Fin v) = Fin m" for m
  proof -
    have fm: "fl m = Fin m" using dm by (simp add: m is_double_def)
    have eq: "ScaleConverter_mmScaled st = fl (m / c)" using cn by (simp add: S m jsdiv_def)
    have "\<bar>m\<bar> / c \<le> \<bar>m\<bar> / 1" using c1 by (intro divide_left_mono) simp_all
    then have "\<bar>m / c\<bar> \<le> \<bar>m\<bar>" using c0 by simp
    from fl_finite_le[OF this fl_abs[OF fm]] eq show ?thesis by simp
  qed
  have B: "ScaleConverter_mmScaled st = toMM (activeUnit st) (Fin v)"
    if "\<not> isFinite (toMM (activeUnit st) (Fin v))"
    using that c0 by (simp add: S jsdiv_not_finite)
  have C: "c = x \<and> MeasurementConverter_mmScaled st = ScaleConverter_mmScaled st"
    if "Fin x \<in> set ALL_SCALES"
  proof -
    from ALL_SCALES_range[OF that] have "c = x" by (simp add: c_def)
    then show ?thesis by (simp add: S M)
  qed
  have D: "ScaleConverter_mmScaled st = toMM (activeUnit st) (Fin v)
           \<and> MeasurementConverter_mmScaled st = toMM (activeUnit st) (Fin v)" if "x = 1"
  proof -
    have "c = 1" using that by (simp add: c_def)
    then show ?thesis using that dm by (simp add: S M jsdiv_1)
  qed
  show ?thesis unfolding c_def[symmetric] using A B C D by blast
qed

theorem scale_is_a_divisor_witness:
  "CHR '','' \<notin> set (inputValue initial_state) \<and> Number (inputValue initial_state) = Fin 100
   \<and> scaleN initial_state = Fin 10 \<and> toMM (activeUnit initial_state) (Fin 100) = Fin 100
   \<and> Fin 10 \<in> set ALL_SCALES
   \<and> ScaleConverter_mmScaled initial_state = Fin 10
   \<and> MeasurementConverter_mmScaled initial_state = Fin 10
   \<and> CHR '','' \<notin> set (inputValue (initial_state\<lparr>inputValue := ''144'', scaleN := Fin 144\<rparr>))
   \<and> Number (inputValue (initial_state\<lparr>inputValue := ''144'', scaleN := Fin 144\<rparr>)) = Fin 144
   \<and> scaleN (initial_state\<lparr>inputValue := ''144'', scaleN := Fin 144\<rparr>) = Fin 144
   \<and> toMM (activeUnit (initial_state\<lparr>inputValue := ''144'', scaleN := Fin 144\<rparr>)) (Fin 144) = Fin 144
   \<and> ScaleConverter_mmScaled (initial_state\<lparr>inputValue := ''144'', scaleN := Fin 144\<rparr>) = Fin 2
   \<and> CHR '','' \<notin> set (inputValue (initial_state\<lparr>scaleN := Fin 1\<rparr>))
   \<and> Number (inputValue (initial_state\<lparr>scaleN := Fin 1\<rparr>)) = Fin 100
   \<and> scaleN (initial_state\<lparr>scaleN := Fin 1\<rparr>) = Fin 1
   \<and> ScaleConverter_mmScaled (initial_state\<lparr>scaleN := Fin 1\<rparr>) = Fin 100
   \<and> MeasurementConverter_mmScaled (initial_state\<lparr>scaleN := Fin 1\<rparr>) = Fin 100"
proof -
  let ?b = "initial_state\<lparr>inputValue := ''144'', scaleN := Fin 144\<rparr>"
  let ?c = "initial_state\<lparr>scaleN := Fin 1\<rparr>"
  have n144: "Number ''144'' = Fin 144" by (simp add: Number_def literal_144)
  have a: "CHR '','' \<notin> set (inputValue initial_state)" "Number (inputValue initial_state) = Fin 100"
    "scaleN initial_state = Fin 10"
    by (simp_all add: Number_100)
  have am: "toMM (activeUnit initial_state) (Fin 100) = Fin 100" by simp
  have as: "Fin 10 \<in> set ALL_SCALES" unfolding ALL_SCALES_iff by (intro exI[of _ 9]) simp
  have b: "CHR '','' \<notin> set (inputValue ?b)" "Number (inputValue ?b) = Fin 144" "scaleN ?b = Fin 144"
    by (simp_all add: n144)
  have bm: "toMM (activeUnit ?b) (Fin 144) = Fin 144" by simp
  have c: "CHR '','' \<notin> set (inputValue ?c)" "Number (inputValue ?c) = Fin 100" "scaleN ?c = Fin 1"
    by (simp_all add: Number_100)
  have cm: "toMM (activeUnit ?c) (Fin 100) = Fin 100" by simp
  have A: "ScaleConverter_mmScaled initial_state = Fin 10
           \<and> MeasurementConverter_mmScaled initial_state = Fin 10"
    using scale_is_a_divisor[OF a] am as by simp
  have B: "ScaleConverter_mmScaled ?b = Fin 2"
    using scale_is_a_divisor[OF b] bm by simp
  have C: "ScaleConverter_mmScaled ?c = Fin 100 \<and> MeasurementConverter_mmScaled ?c = Fin 100"
    using scale_is_a_divisor[OF c] cm by simp
  from a am as b bm c A B C show ?thesis by blast
qed


text \<open>
  Claim C8 at the input \<open>1,000\<close>, in millimetres at the scale 10.  \<open>ScaleConverter\<close>
  removes the comma and returns 100; \<open>MeasurementConverter\<close> passes the string to
  \<open>Number\<close> as it is, gets \<open>NaN\<close> and returns 0.
\<close>

theorem MeasurementConverter_keeps_commas:
  "Number ''1,000'' = NaN
   \<and> MeasurementConverter_mmScaled (initial_state\<lparr>inputValue := ''1,000''\<rparr>) = Fin 0
   \<and> ScaleConverter_mmScaled (initial_state\<lparr>inputValue := ''1,000''\<rparr>) = Fin 100"
proof -
  have a: "Number ''1,000'' = NaN" by (simp add: Number_def literal_1_000)
  have b: "Number ''1000'' = Fin 1000" by (simp add: Number_def literal_1000)
  show ?thesis
    by (simp add: MeasurementConverter_mmScaled_def ScaleConverter_mmScaled_def Let_def a b
        jsdiv_def)
qed


section \<open>The unit tables: there and back\<close>

text \<open>
  Claim C9, as amended.  For every unit of the two tables and every finite value whose
  millimetre value is finite, converting to millimetres and back gives a finite value
  \<open>w\<close> with \<open>|w - v| \<le> |v| / 2\<^sup>5\<^sup>0 + 2\<^sup>-\<^sup>1\<^sup>0\<^sup>7\<^sup>2\<close>; for millimetres the value comes back
  unchanged, whatever it is.
\<close>

theorem unit_roundtrip_tolerance:
  "(\<forall>u \<in> set (METRIC_UNITS @ IMPERIAL_UNITS). \<forall>v m. toMM u (Fin v) = Fin m \<longrightarrow>
      (\<exists>w. fromMM u (Fin m) = Fin w \<and> \<bar>w - v\<bar> \<le> \<bar>v\<bar> / 2 ^ 50 + 1 / 2 ^ 1072))
   \<and> (\<forall>x. fromMM (METRIC_UNITS ! 0) (toMM (METRIC_UNITS ! 0) x) = x)"
proof -
  have e: "\<bar>v\<bar> * (8 / 2 ^ 53) + 8 * eta = \<bar>v\<bar> / 2 ^ 50 + 1 / 2 ^ 1072" for v :: rat
    by (simp add: eta_def pow2_def)
  have A: "\<exists>w. fromMM u (Fin m) = Fin w \<and> \<bar>w - v\<bar> \<le> \<bar>v\<bar> / 2 ^ 50 + 1 / 2 ^ 1072"
    if "u \<in> set (METRIC_UNITS @ IMPERIAL_UNITS)" "toMM u (Fin v) = Fin m" for u v m
    using roundtrip_units[OF that] by (simp only: e)
  have B: "fromMM (METRIC_UNITS ! 0) (toMM (METRIC_UNITS ! 0) x) = x" for x
    by (simp add: METRIC_UNITS_def)
  show ?thesis using A B by blast
qed

theorem unit_roundtrip_tolerance_witness:
  "METRIC_UNITS ! 1 \<in> set (METRIC_UNITS @ IMPERIAL_UNITS)
   \<and> toMM (METRIC_UNITS ! 1) (Fin (5 / 2)) = Fin 25
   \<and> (\<exists>w. fromMM (METRIC_UNITS ! 1) (Fin 25) = Fin w \<and> \<bar>w - 5 / 2\<bar> \<le> \<bar>5 / 2\<bar> / 2 ^ 50 + 1 / 2 ^ 1072)"
proof -
  have a: "METRIC_UNITS ! 1 \<in> set (METRIC_UNITS @ IMPERIAL_UNITS)" by (simp add: METRIC_UNITS_def)
  have b: "toMM (METRIC_UNITS ! 1) (Fin (5 / 2)) = Fin 25" by (simp add: METRIC_UNITS_def jsmul_def)
  from unit_roundtrip_tolerance a b show ?thesis by blast
qed

text \<open>
  Claim C9 as the specification states it fails where the multiplication overflows:
  \<open>2\<^sup>1\<^sup>0\<^sup>2\<^sup>3\<close> centimetres are \<open>Infinity\<close> millimetres, and \<open>Infinity\<close> centimetres
  again.
\<close>

theorem unit_roundtrip_overflow_counterexample:
  "is_double (Fin (2 ^ 1023))
   \<and> toMM (METRIC_UNITS ! 1) (Fin (2 ^ 1023)) = PInf
   \<and> fromMM (METRIC_UNITS ! 1) (toMM (METRIC_UNITS ! 1) (Fin (2 ^ 1023))) = PInf"
proof -
  have "fl (pow2 1023) = Fin (pow2 1023)" by (rule fl_pow2) simp_all
  then have a: "is_double (Fin (2 ^ 1023))" by (simp add: is_double_def pow2_def)
  have "(2::rat) ^ 1024 \<le> 2 ^ 1023 * 10" by simp
  then have "fl (2 ^ 1023 * 10) = PInf" by (rule fl_overflow)
  then have b: "toMM (METRIC_UNITS ! 1) (Fin (2 ^ 1023)) = PInf"
    by (simp add: METRIC_UNITS_def jsmul_def)
  show ?thesis using a b by (simp add: METRIC_UNITS_def jsdiv_def)
qed

end
